theory Spec2Isabelle
  imports Complex_Main
begin

section \<open>Voice scroll controller: the two variants of script.js\<close>

text \<open>
  The source file holds two versions of the class \<open>VoiceScrollController\<close>. \<open>V1\<close> is the
  first one (it has the \<open>stop\<close> voice command, the \<open>switch\<close> in the error handler and the
  two-sided clamp in \<open>smoothScroll\<close>), \<open>V2\<close> the second one. Functions whose bodies differ
  take the variant as their first argument; the others are shared.
\<close>

datatype variant = V1 | V2

subsection \<open>Strings\<close>

text \<open>
  A string is a list of code units below 256 (the Latin-1 range of the host's UTF-16
  strings). \<open>isWhiteSpace\<close> is the class \<open>\s\<close> of the regular expression and the set
  stripped by \<open>trim\<close>; \<open>isWordChar\<close> is the class \<open>\w\<close>.
\<close>

definition charCode :: "char \<Rightarrow> nat" where
  "charCode c = of_char c"

definition isWhiteSpace :: "char \<Rightarrow> bool" where
  "isWhiteSpace c = (charCode c \<in> {9, 10, 11, 12, 13, 32, 160})"

definition isWordChar :: "char \<Rightarrow> bool" where
  "isWordChar c = (let n = charCode c in
     (48 \<le> n \<and> n \<le> 57) \<or> (65 \<le> n \<and> n \<le> 90) \<or> n = 95 \<or> (97 \<le> n \<and> n \<le> 122))"

definition lowerChar :: "char \<Rightarrow> char" where
  "lowerChar c = (let n = charCode c in
     if (65 \<le> n \<and> n \<le> 90) \<or> (192 \<le> n \<and> n \<le> 222 \<and> n \<noteq> 215)
     then char_of (n + 32) else c)"

definition toLowerCase :: "string \<Rightarrow> string" where
  "toLowerCase s = map lowerChar s"

definition trim :: "string \<Rightarrow> string" where
  "trim s = rev (dropWhile isWhiteSpace (rev (dropWhile isWhiteSpace s)))"

text \<open>
  \<open>s.split(/\s+/)\<close>: the scan of the host's split. \<open>cur\<close> is the piece since the end of the
  last separator; a whitespace character closes the piece and the whole run of whitespace
  is the separator; the piece that is open at the end of the string is pushed too, so the
  empty string splits into one empty piece.
\<close>

function splitFrom :: "string \<Rightarrow> string \<Rightarrow> string list" where
  "splitFrom cur [] = [cur]"
| "splitFrom cur (c # cs) =
     (if isWhiteSpace c then cur # splitFrom [] (dropWhile isWhiteSpace cs)
      else splitFrom (cur @ [c]) cs)"
  by pat_completeness auto
termination
  by (relation "measure (\<lambda>(cur, s). length s)")
     (auto simp: less_Suc_eq_le length_dropWhile_le)

definition split_ws :: "string \<Rightarrow> string list" where
  "split_ws s = splitFrom [] s"

text \<open>
  \<open>new RegExp('\\b' + cmd + '\\b', 'i').test(word)\<close> for a command name made of letters:
  some position of the word has a word boundary, then the name up to the case of ASCII
  letters, then a word boundary again. Under the flag \<open>i\<close> (without \<open>u\<close>) a character
  outside ASCII is never identified with an ASCII letter.
\<close>

definition canonicalize :: "char \<Rightarrow> char" where
  "canonicalize c = (let n = charCode c in
     if 97 \<le> n \<and> n \<le> 122 then char_of (n - 32) else c)"

definition boundaryAt :: "string \<Rightarrow> nat \<Rightarrow> bool" where
  "boundaryAt s i =
     ((0 < i \<and> isWordChar (s ! (i - 1))) \<noteq> (i < length s \<and> isWordChar (s ! i)))"

definition matchesAt :: "string \<Rightarrow> string \<Rightarrow> nat \<Rightarrow> bool" where
  "matchesAt cmd s i =
     (boundaryAt s i \<and> i + length cmd \<le> length s \<and>
      map canonicalize (take (length cmd) (drop i s)) = map canonicalize cmd \<and>
      boundaryAt s (i + length cmd))"

definition regexTest :: "string \<Rightarrow> string \<Rightarrow> bool" where
  "regexTest cmd s = list_ex (matchesAt cmd s) [0..<Suc (length s)]"

subsection \<open>Configuration\<close>

record config =
  idleDuration :: int
  debounceDelay :: int
  scrollAmount :: real
  lang :: string

text \<open>
  The object the caller passes to the constructor: a key is absent (\<open>None\<close>) or bound
  to a value of the type the controller uses it at (a number, a language tag).
\<close>

record options =
  optIdleDuration :: "int option"
  optDebounceDelay :: "int option"
  optScrollAmount :: "real option"
  optLang :: "string option"

text \<open>\<open>config.key || dflt\<close>: an absent key reads as \<open>undefined\<close>; \<open>0\<close> and \<open>''\<close> are falsy.\<close>

definition orInt :: "int option \<Rightarrow> int \<Rightarrow> int" where
  "orInt x d = (case x of None \<Rightarrow> d | Some n \<Rightarrow> if n = 0 then d else n)"

definition orReal :: "real option \<Rightarrow> real \<Rightarrow> real" where
  "orReal x d = (case x of None \<Rightarrow> d | Some n \<Rightarrow> if n = 0 then d else n)"

definition orString :: "string option \<Rightarrow> string \<Rightarrow> string" where
  "orString x d = (case x of None \<Rightarrow> d | Some s \<Rightarrow> if s = [] then d else s)"

text \<open>\<open>{ ...config }\<close> at the end of the object literal: every bound key overwrites.\<close>

definition spread :: "options \<Rightarrow> config \<Rightarrow> config" where
  "spread c b =
     \<lparr> idleDuration = (case optIdleDuration c of None \<Rightarrow> idleDuration b | Some n \<Rightarrow> n),
       debounceDelay = (case optDebounceDelay c of None \<Rightarrow> debounceDelay b | Some n \<Rightarrow> n),
       scrollAmount = (case optScrollAmount c of None \<Rightarrow> scrollAmount b | Some n \<Rightarrow> n),
       lang = (case optLang c of None \<Rightarrow> lang b | Some s \<Rightarrow> s) \<rparr>"

definition mkConfig :: "options \<Rightarrow> config" where
  "mkConfig c =
     spread c
       \<lparr> idleDuration = orInt (optIdleDuration c) 10000,
         debounceDelay = orInt (optDebounceDelay c) 500,
         scrollAmount = orReal (optScrollAmount c) 100,
         lang = orString (optLang c) ''en-US'' \<rparr>"

subsection \<open>Controller and host state\<close>

datatype timer_kind = IdleTimer | FeedbackTimer

datatype log =
    Heard string
  | Executed string
  | Debounced string
  | UnknownCommand string
  | ErrorExecuting string
  | RecognitionError string
  | NoSpeech
  | NetworkError
  | OtherError string
  | Alert string
  | FailedToStart
  | FailedToRestart
  | Started
  | Stopped
  | StoppedInactive

datatype error = TypeError | HostError string

text \<open>
  The fields of the controller (\<open>config\<close>, the three fields of \<open>this.state\<close>,
  \<open>recognition\<close>, \<open>idleTimeout\<close>) and what it reads and writes in the host: the scroll
  metrics, the arguments of the calls of \<open>window.scrollTo\<close> (newest first), the pending
  timers with the next handle of \<open>setTimeout\<close>, the readings of \<open>Date.now()\<close> (the
  \<open>n\<close>-th call returns \<open>clock n\<close>), the number of sessions constructed and of calls of
  their \<open>start\<close> and \<open>stop\<close>, and the console with the alerts (newest first).
\<close>

record ctl =
  config :: config
  isListening :: bool
  lastCommand :: string
  lastCommandTime :: int
  recognition :: "nat option"
  idleTimeout :: "nat option"
  scrollY :: real
  innerHeight :: real
  scrollHeight :: real
  scrollCalls :: "real list"
  timers :: "(nat \<times> timer_kind) list"
  nextTimer :: nat
  clock :: "nat \<Rightarrow> int"
  ticks :: nat
  sessions :: nat
  starts :: nat
  stops :: nat
  console :: "log list"

text \<open>A thrown exception carries the state at the throw: nothing is rolled back.\<close>

type_synonym outcome = "(error \<times> ctl) + ctl"

type_synonym command = "string \<times> string \<times> (ctl \<Rightarrow> outcome)"

definition say :: "log \<Rightarrow> ctl \<Rightarrow> ctl" where
  "say l s = s\<lparr>console := l # console s\<rparr>"

definition dateNow :: "ctl \<Rightarrow> int \<times> ctl" where
  "dateNow s = (clock s (ticks s), s\<lparr>ticks := ticks s + 1\<rparr>)"

definition setTimeout :: "timer_kind \<Rightarrow> ctl \<Rightarrow> nat \<times> ctl" where
  "setTimeout k s =
     (nextTimer s, s\<lparr>timers := (nextTimer s, k) # timers s, nextTimer := nextTimer s + 1\<rparr>)"

definition clearTimeout :: "nat \<Rightarrow> ctl \<Rightarrow> ctl" where
  "clearTimeout t s = s\<lparr>timers := filter (\<lambda>p. fst p \<noteq> t) (timers s)\<rparr>"

subsection \<open>Idle timer, stop, scrolling\<close>

text \<open>\<open>if (this.idleTimeout)\<close>: \<open>null\<close> and the handle \<open>0\<close> are falsy.\<close>

definition clearIdleTimeout :: "ctl \<Rightarrow> ctl" where
  "clearIdleTimeout s =
     (case idleTimeout s of
        None \<Rightarrow> s
      | Some t \<Rightarrow> if t = 0 then s else (clearTimeout t s)\<lparr>idleTimeout := None\<rparr>)"

definition updateUIState :: "bool \<Rightarrow> ctl \<Rightarrow> ctl" where
  "updateUIState isActive s = s\<lparr>isListening := isActive\<rparr>"

definition stopRecognition :: "ctl \<Rightarrow> ctl" where
  "stopRecognition s =
     (let s1 = (case recognition s of
                  None \<Rightarrow> s
                | Some r \<Rightarrow> s\<lparr>stops := stops s + 1, recognition := None\<rparr>)
      in say Stopped (updateUIState False (clearIdleTimeout s1)))"

definition resetIdleTimeout :: "ctl \<Rightarrow> ctl" where
  "resetIdleTimeout s =
     (let s1 = clearIdleTimeout s; (t, s2) = setTimeout IdleTimer s1
      in s2\<lparr>idleTimeout := Some t\<rparr>)"

text \<open>
  The host runs the callback of a pending timer and forgets the timer. The callback of
  the idle timer is \<open>stopRecognition\<close> (after a log line in \<open>V1\<close>); the one of the
  feedback timer only recolours the icon.
\<close>

definition fireTimer :: "variant \<Rightarrow> nat \<Rightarrow> ctl \<Rightarrow> ctl" where
  "fireTimer v t s =
     (case map_of (timers s) t of
        None \<Rightarrow> s
      | Some k \<Rightarrow>
          (let s1 = clearTimeout t s in
           case k of
             IdleTimer \<Rightarrow>
               (case v of V1 \<Rightarrow> stopRecognition (say StoppedInactive s1)
                        | V2 \<Rightarrow> stopRecognition s1)
           | FeedbackTimer \<Rightarrow> s1))"

definition scrollTo :: "real \<Rightarrow> ctl \<Rightarrow> ctl" where
  "scrollTo y s = s\<lparr>scrollCalls := y # scrollCalls s\<rparr>"

definition smoothScroll :: "variant \<Rightarrow> real \<Rightarrow> ctl \<Rightarrow> ctl" where
  "smoothScroll v position s =
     (case v of
        V1 \<Rightarrow> scrollTo (max 0 (min position (scrollHeight s))) s
      | V2 \<Rightarrow> scrollTo (max 0 position) s)"

subsection \<open>Noise words and commands\<close>

definition noiseWords :: "variant \<Rightarrow> string list" where
  "noiseWords v =
     (case v of
        V1 \<Rightarrow> [''uh'', ''um'', ''like'', ''you know'', ''so'',
               ''ohhh'', ''heyy'', ''haaaa'', ''shhshshh'', ''the'', ''a'', ''an'']
      | V2 \<Rightarrow> [''uh'', ''um'', ''like'', ''you know'', ''so'',
               ''ohhh'', ''heyy'', ''haaaa'', ''shhshshh''])"

definition commands :: "variant \<Rightarrow> command list" where
  "commands v =
     [ (''up'', ''Scroll up'',
          \<lambda>s. Inr (smoothScroll v (scrollY s - scrollAmount (config s)) s)),
       (''down'', ''Scroll down'',
          \<lambda>s. Inr (smoothScroll v (scrollY s + scrollAmount (config s)) s)),
       (''top'', ''Scroll to the top of the page'',
          \<lambda>s. Inr (smoothScroll v 0 s)),
       (''bottom'', ''Scroll to the bottom of the page'',
          \<lambda>s. Inr (smoothScroll v (scrollHeight s) s)),
       (''fly'', ''Scroll up half a page'',
          \<lambda>s. Inr (smoothScroll v (scrollY s - innerHeight s / 2) s)),
       (''jump'', ''Scroll down half a page'',
          \<lambda>s. Inr (smoothScroll v (scrollY s + innerHeight s / 2) s)) ]
     @ (case v of
          V1 \<Rightarrow> [(''stop'', ''Stop voice control'', \<lambda>s. Inr (stopRecognition s))]
        | V2 \<Rightarrow> [])"

subsection \<open>From a transcript to the actions\<close>

definition cleanTranscript :: "variant \<Rightarrow> string list \<Rightarrow> string \<Rightarrow> string list" where
  "cleanTranscript v noise transcript =
     (case v of
        V1 \<Rightarrow> filter (\<lambda>word. length word > 0 \<and> word \<notin> set noise)
               (split_ws (trim (toLowerCase transcript)))
      | V2 \<Rightarrow> filter (\<lambda>word. word \<notin> set noise)
               (split_ws (trim (toLowerCase transcript))))"

definition findMatchingCommand :: "command list \<Rightarrow> string \<Rightarrow> string option" where
  "findMatchingCommand cmds word = List.find (\<lambda>cmd. regexTest cmd word) (map fst cmds)"

definition canExecuteCommand :: "string \<Rightarrow> ctl \<Rightarrow> bool \<times> ctl" where
  "canExecuteCommand command s =
     (let (now, s1) = dateNow s;
          timeSinceLastCommand = now - lastCommandTime s1
      in (command \<noteq> lastCommand s1 \<or> timeSinceLastCommand > debounceDelay (config s1), s1))"

definition showCommandFeedback :: "ctl \<Rightarrow> ctl" where
  "showCommandFeedback s = snd (setTimeout FeedbackTimer s)"

text \<open>
  The body of the \<open>try\<close> of \<open>executeCommand\<close>, then \<open>executeCommand\<close> with its \<open>catch\<close>.
  A name that the table does not bind makes \<open>this.commands[command].action\<close> throw.
\<close>

definition executeCommandTry :: "variant \<Rightarrow> command list \<Rightarrow> string \<Rightarrow> ctl \<Rightarrow> outcome" where
  "executeCommandTry v cmds command s =
     (case map_of cmds command of
        None \<Rightarrow> Inl (TypeError, s)
      | Some (description, action) \<Rightarrow>
          (case action s of
             Inl x \<Rightarrow> Inl x
           | Inr s1 \<Rightarrow>
               (let (now, s2) = dateNow (s1\<lparr>lastCommand := command\<rparr>);
                    s3 = say (Executed command) (s2\<lparr>lastCommandTime := now\<rparr>)
                in Inr (case v of V1 \<Rightarrow> showCommandFeedback s3 | V2 \<Rightarrow> s3))))"

definition executeCommand :: "variant \<Rightarrow> command list \<Rightarrow> string \<Rightarrow> ctl \<Rightarrow> outcome" where
  "executeCommand v cmds command s =
     (case executeCommandTry v cmds command s of
        Inl (e, s1) \<Rightarrow> Inr (say (ErrorExecuting command) s1)
      | Inr s1 \<Rightarrow> Inr s1)"

text \<open>\<open>command && ...\<close>: \<open>undefined\<close> (no match) and the empty name are falsy.\<close>

definition noCommand :: "variant \<Rightarrow> string \<Rightarrow> ctl \<Rightarrow> ctl" where
  "noCommand v word s = (case v of V1 \<Rightarrow> s | V2 \<Rightarrow> say (UnknownCommand word) s)"

definition processCommand :: "variant \<Rightarrow> command list \<Rightarrow> string \<Rightarrow> ctl \<Rightarrow> outcome" where
  "processCommand v cmds word s =
     (case findMatchingCommand cmds word of
        None \<Rightarrow> Inr (noCommand v word s)
      | Some command \<Rightarrow>
          if command = [] then Inr (noCommand v word s)
          else (let (ok, s1) = canExecuteCommand command s
                in if ok then executeCommand v cmds command s1
                   else Inr (say (Debounced command) s1)))"

text \<open>\<open>forEach\<close>: an exception of the callback ends the loop and leaves it.\<close>

fun forEach :: "(string \<Rightarrow> ctl \<Rightarrow> outcome) \<Rightarrow> string list \<Rightarrow> ctl \<Rightarrow> outcome" where
  "forEach f [] s = Inr s"
| "forEach f (w # ws) s = (case f w s of Inl x \<Rightarrow> Inl x | Inr s1 \<Rightarrow> forEach f ws s1)"

definition handleRecognitionResult ::
  "variant \<Rightarrow> string list \<Rightarrow> command list \<Rightarrow> string \<Rightarrow> ctl \<Rightarrow> outcome" where
  "handleRecognitionResult v noise cmds transcript s =
     (let s1 = resetIdleTimeout s;
          s2 = (case v of V1 \<Rightarrow> say (Heard transcript) s1 | V2 \<Rightarrow> s1)
      in forEach (processCommand v cmds) (cleanTranscript v noise transcript) s2)"

subsection \<open>Session lifecycle\<close>

text \<open>
  \<open>event?.error || 'Unknown error'\<close>: \<open>None\<close> is an event (or a caught exception) without
  the property \<open>error\<close>.
\<close>

definition errorMessageOf :: "string option \<Rightarrow> string" where
  "errorMessageOf err =
     (case err of None \<Rightarrow> ''Unknown error'' | Some m \<Rightarrow> if m = [] then ''Unknown error'' else m)"

definition handleRecognitionError :: "variant \<Rightarrow> string option \<Rightarrow> ctl \<Rightarrow> ctl" where
  "handleRecognitionError v err s =
     (let errorMessage = errorMessageOf err;
          s1 = say (RecognitionError errorMessage) s
      in case v of
           V1 \<Rightarrow>
             if errorMessage = ''not-allowed'' \<or> errorMessage = ''permission-denied''
             then stopRecognition (say (Alert ''Microphone access denied. Please grant permission to use voice commands.'') s1)
             else if errorMessage = ''no-speech'' then say NoSpeech s1
             else if errorMessage = ''audio-capture''
             then stopRecognition (say (Alert ''No microphone found. Please check your microphone connection.'') s1)
             else if errorMessage = ''network'' then say NetworkError s1
             else say (OtherError errorMessage) s1
         | V2 \<Rightarrow>
             if errorMessage = ''not-allowed''
             then stopRecognition (say (Alert ''Microphone access denied. Please grant permission to use voice commands.'') s1)
             else s1)"

text \<open>
  \<open>restartThrows\<close> is the host's answer to \<open>this.recognition.start()\<close>; with no session
  the call throws by itself.
\<close>

definition handleRecognitionEnd :: "bool \<Rightarrow> ctl \<Rightarrow> ctl" where
  "handleRecognitionEnd restartThrows s =
     (if isListening s then
        (case recognition s of
           None \<Rightarrow> stopRecognition (say FailedToRestart s)
         | Some r \<Rightarrow>
             if restartThrows then stopRecognition (say FailedToRestart s)
             else s\<lparr>starts := starts s + 1\<rparr>)
      else s)"

text \<open>
  \<open>confirmed\<close> is the user's answer to \<open>window.confirm\<close> in \<open>V1\<close>; \<open>V2\<close> shows an alert.
\<close>

definition showCommandsList :: "variant \<Rightarrow> bool \<Rightarrow> ctl \<Rightarrow> ctl" where
  "showCommandsList v confirmed s =
     (case v of
        V1 \<Rightarrow> (let s1 = say (Alert ''Voice Control Active'') s
               in if confirmed then s1 else stopRecognition s1)
      | V2 \<Rightarrow> say (Alert ''Available Voice Commands'') s)"

datatype session_reply = ConstructThrows | StartThrows | StartOk

definition startRecognition :: "variant \<Rightarrow> session_reply \<Rightarrow> bool \<Rightarrow> ctl \<Rightarrow> ctl" where
  "startRecognition v reply confirmed s =
     (case reply of
        ConstructThrows \<Rightarrow> handleRecognitionError v None (say FailedToStart s)
      | StartThrows \<Rightarrow>
          handleRecognitionError v None
            (say FailedToStart (s\<lparr>recognition := Some (sessions s), sessions := sessions s + 1\<rparr>))
      | StartOk \<Rightarrow>
          (let s1 = s\<lparr>recognition := Some (sessions s), sessions := sessions s + 1,
                       starts := starts s + 1\<rparr>;
               s2 = updateUIState True s1;
               s3 = showCommandsList v confirmed s2;
               s4 = resetIdleTimeout s3
           in say Started s4))"

definition toggleRecognition :: "variant \<Rightarrow> session_reply \<Rightarrow> bool \<Rightarrow> ctl \<Rightarrow> ctl" where
  "toggleRecognition v reply confirmed s =
     (if isListening s then stopRecognition s else startRecognition v reply confirmed s)"

definition destroy :: "ctl \<Rightarrow> ctl" where
  "destroy s = (stopRecognition s)\<lparr>recognition := None\<rparr>"

definition newController :: "options \<Rightarrow> (nat \<Rightarrow> int) \<Rightarrow> ctl" where
  "newController opts clk =
     \<lparr> config = mkConfig opts, isListening = False, lastCommand = [], lastCommandTime = 0,
       recognition = None, idleTimeout = None,
       scrollY = 0, innerHeight = 0, scrollHeight = 0, scrollCalls = [],
       timers = [], nextTimer = 1, clock = clk, ticks = 0,
       sessions = 0, starts = 0, stops = 0, console = [] \<rparr>"

subsection \<open>The event loop\<close>

text \<open>
  What the host can deliver, one event at a time: a click on the microphone button (with
  the host's answers during the start), a result with its transcript, an error with its
  kind, the end of the session (with the answer to the restart), a timer that fires, the
  page being left, and a change of the scroll metrics.
\<close>

datatype event =
    Click session_reply bool
  | OnResult string
  | OnError string
  | OnEnd bool
  | TimerFires nat
  | Unload
  | Metrics real real real

definition settle :: "outcome \<Rightarrow> ctl" where
  "settle r = (case r of Inl (e, s) \<Rightarrow> s | Inr s \<Rightarrow> s)"

fun step :: "variant \<Rightarrow> event \<Rightarrow> ctl \<Rightarrow> ctl" where
  "step v (Click reply confirmed) s = toggleRecognition v reply confirmed s"
| "step v (OnResult transcript) s =
     settle (handleRecognitionResult v (noiseWords v) (commands v) transcript s)"
| "step v (OnError kind) s = handleRecognitionError v (Some kind) s"
| "step v (OnEnd restartThrows) s = handleRecognitionEnd restartThrows s"
| "step v (TimerFires t) s = fireTimer v t s"
| "step v Unload s = destroy s"
| "step v (Metrics y h d) s = s\<lparr>scrollY := y, innerHeight := h, scrollHeight := d\<rparr>"

fun run :: "variant \<Rightarrow> event list \<Rightarrow> ctl \<Rightarrow> ctl" where
  "run v [] s = s"
| "run v (e # es) s = run v es (step v e s)"

definition idleTimers :: "ctl \<Rightarrow> (nat \<times> timer_kind) list" where
  "idleTimers s = filter (\<lambda>p. snd p = IdleTimer) (timers s)"

text \<open>
  The invariant of the timer table: handles are positive, below the next handle and
  distinct, and a pending idle timer is the one \<open>idleTimeout\<close> holds.
\<close>

definition timersOk :: "ctl \<Rightarrow> bool" where
  "timersOk s =
     (0 < nextTimer s \<and>
      list_all (\<lambda>p. 0 < fst p \<and> fst p < nextTimer s) (timers s) \<and>
      distinct (map fst (timers s)) \<and>
      list_all (\<lambda>p. snd p = FeedbackTimer \<or> idleTimeout s = Some (fst p)) (timers s))"

subsection \<open>The cleaning as the specification words it\<close>

text \<open>
  The words of a string: its maximal runs of characters that are not whitespace.
  \<open>specClean\<close> follows the sentence of the specification: lower-case, trim, split on
  whitespace runs, drop the empty tokens and the noise words; that is, the words of the
  lower-cased transcript that are not noise words.
\<close>

function wordsOf :: "string \<Rightarrow> string list" where
  "wordsOf s =
     (case dropWhile isWhiteSpace s of
        [] \<Rightarrow> []
      | c # cs \<Rightarrow>
          (c # takeWhile (\<lambda>x. \<not> isWhiteSpace x) cs)
            # wordsOf (dropWhile (\<lambda>x. \<not> isWhiteSpace x) cs))"
  by pat_completeness auto
termination
proof (relation "measure length")
  show "wf (measure length)" by simp
next
  fix s :: string and c cs
  assume a: "dropWhile isWhiteSpace s = c # cs"
  have "length (dropWhile (\<lambda>x. \<not> isWhiteSpace x) cs) \<le> length cs"
    by (rule length_dropWhile_le)
  moreover have "length (c # cs) \<le> length s"
    using length_dropWhile_le [of isWhiteSpace s] a by simp
  ultimately show "(dropWhile (\<lambda>x. \<not> isWhiteSpace x) cs, s) \<in> measure length"
    by simp
qed

declare wordsOf.simps [simp del]

definition specClean :: "string list \<Rightarrow> string \<Rightarrow> string list" where
  "specClean noise transcript =
     filter (\<lambda>word. word \<notin> set noise) (wordsOf (toLowerCase transcript))"

subsection \<open>Reachable states\<close>

text \<open>
  What every handler keeps: the configuration \<open>c\<close>, the invariant of the timer table, and
  a session behind every listening state.
\<close>

definition wellFormed :: "config \<Rightarrow> ctl \<Rightarrow> bool" where
  "wellFormed c s =
     (config s = c \<and> timersOk s \<and> (isListening s = False \<or> recognition s \<noteq> None))"

text \<open>The position that \<open>smoothScroll\<close> hands to \<open>window.scrollTo\<close>.\<close>

definition appliedTop :: "variant \<Rightarrow> real \<Rightarrow> ctl \<Rightarrow> real" where
  "appliedTop v position s = hd (scrollCalls (smoothScroll v position s))"

text \<open>Example inputs: a fresh controller on a page 3000 high, and one that listens.\<close>

definition noOptions :: options where
  "noOptions = \<lparr> optIdleDuration = None, optDebounceDelay = None,
                 optScrollAmount = None, optLang = None \<rparr>"

definition tenthClock :: "nat \<Rightarrow> int" where
  "tenthClock n = 1000 + 100 * int n"

definition page :: ctl where
  "page = step V1 (Metrics 200 800 3000) (newController noOptions tenthClock)"

definition listening :: "variant \<Rightarrow> ctl" where
  "listening v = step v (Click StartOk True) page"

definition someOptions :: options where
  "someOptions = \<lparr> optIdleDuration = Some 15000, optDebounceDelay = Some 0,
                   optScrollAmount = None, optLang = None \<rparr>"

definition session :: "event list" where
  "session = [Click StartOk True, OnResult ''scroll down'', OnError ''network'',
              OnEnd False, TimerFires 2]"

text \<open>
  More example inputs: a clock whose readings are \<open>d\<close> apart, a command table whose \<open>up\<close>
  throws, the state after a result, and the listening controller after \<open>up\<close> was heard.
\<close>

definition evenClock :: "int \<Rightarrow> nat \<Rightarrow> int" where
  "evenClock d n = 1000 + d * int n"

definition failingCommands :: "command list" where
  "failingCommands =
     (''up'', ''Scroll up'', \<lambda>s. Inl (HostError ''scrollTo'', s)) # tl (commands V1)"

definition heard :: "variant \<Rightarrow> command list \<Rightarrow> string \<Rightarrow> ctl \<Rightarrow> ctl" where
  "heard v cmds transcript s = settle (handleRecognitionResult v (noiseWords v) cmds transcript s)"

definition afterUp :: "int \<Rightarrow> ctl" where
  "afterUp d = heard V1 (commands V1) ''up'' ((listening V1)\<lparr>clock := evenClock d\<rparr>)"

text \<open>
  A transcript composed of noise only: each of its words is a word of an entry of the
  noise list (\<open>you\<close> and \<open>know\<close> are the words of the entry \<open>you know\<close>).
\<close>

definition noiseTokens :: "variant \<Rightarrow> string list" where
  "noiseTokens v = concat (map wordsOf (noiseWords v))"

definition onlyNoise :: "variant \<Rightarrow> string \<Rightarrow> bool" where
  "onlyNoise v transcript =
     list_all (\<lambda>w. w \<in> set (noiseTokens v)) (wordsOf (toLowerCase transcript))"

text \<open>A name made of the letters \<open>a\<close> to \<open>z\<close> only, as every command name is.\<close>

definition lowerName :: "string \<Rightarrow> bool" where
  "lowerName c = list_all (\<lambda>p. 97 \<le> charCode p \<and> charCode p \<le> 122) c"

section \<open>Properties\<close>

subsection \<open>Scroll targets\<close>

lemma scrollHeight_page: "scrollHeight page = 3000"
  by (simp add: page_def newController_def)

text \<open>
  C1 (as amended). On a page whose height is not negative, the position that
  \<open>smoothScroll\<close> applies in \<open>V1\<close> is the target clamped into the range from 0 to
  \<open>document.body.scrollHeight\<close> (the extent the \<open>bottom\<close> command scrolls to): a negative
  target gives 0 and a target beyond the height gives the height. In \<open>V2\<close> the position
  applied is the larger of 0 and the target: a negative target gives 0, and a target
  beyond the height is applied as it is.
\<close>

theorem smoothScroll_applied:
  "0 \<le> scrollHeight s \<Longrightarrow>
     appliedTop V1 p s = max 0 (min p (scrollHeight s)) \<and>
     0 \<le> appliedTop V1 p s \<and> appliedTop V1 p s \<le> scrollHeight s \<and>
     (p < 0 \<longrightarrow> appliedTop V1 p s = 0) \<and>
     (scrollHeight s < p \<longrightarrow> appliedTop V1 p s = scrollHeight s) \<and>
     appliedTop V2 p s = max 0 p \<and>
     (p < 0 \<longrightarrow> appliedTop V2 p s = 0) \<and>
     (scrollHeight s < p \<longrightarrow> appliedTop V2 p s = p)"
  by (auto simp: appliedTop_def smoothScroll_def scrollTo_def)

text \<open>
  C1, witness: on the page 3000 high the targets -500 and 5000 give 0 and 3000 in \<open>V1\<close>,
  0 and 5000 in \<open>V2\<close>.
\<close>

theorem smoothScroll_applied_witness:
  "0 \<le> scrollHeight page \<and>
   appliedTop V1 (- 500) page = 0 \<and> appliedTop V1 5000 page = 3000 \<and>
   appliedTop V2 (- 500) page = 0 \<and> appliedTop V2 5000 page = 5000"
  using smoothScroll_applied [of page "- 500"] smoothScroll_applied [of page 5000]
  by (simp add: scrollHeight_page)

text \<open>
  C1, counterexample to the statement as the specification has it: in \<open>V2\<close> the target 5000 on the page 3000
  high is applied beyond the height.
\<close>

theorem smoothScroll_V2_not_clamped:
  "\<not> appliedTop V2 5000 page \<le> scrollHeight page"
  by (simp add: appliedTop_def smoothScroll_def scrollTo_def page_def newController_def)

subsection \<open>What every handler keeps\<close>

lemma timersOk_clearTimeout: "timersOk s \<Longrightarrow> timersOk (clearTimeout t s)"
  by (auto simp: timersOk_def clearTimeout_def list_all_iff distinct_map_filter)

lemma idleTimers_clearIdleTimeout:
  assumes "timersOk s"
  shows "idleTimers (clearIdleTimeout s) = []"
proof (cases "idleTimeout s")
  case None
  with assms show ?thesis
    by (auto simp: timersOk_def clearIdleTimeout_def idleTimers_def list_all_iff
        filter_empty_conv)
next
  case (Some t)
  have pos: "\<And>p. p \<in> set (timers s) \<Longrightarrow> 0 < fst p"
    and own: "\<And>p. p \<in> set (timers s) \<Longrightarrow> snd p = IdleTimer \<Longrightarrow> fst p = t"
    using assms Some by (auto simp: timersOk_def list_all_iff)
  show ?thesis
  proof (cases "t = 0")
    case True
    have "\<And>p. p \<in> set (timers s) \<Longrightarrow> snd p \<noteq> IdleTimer"
      using pos own True by fastforce
    then show ?thesis using Some True
      by (simp add: clearIdleTimeout_def idleTimers_def filter_empty_conv)
  next
    case False
    then show ?thesis using Some own
      by (auto simp: clearIdleTimeout_def clearTimeout_def idleTimers_def filter_empty_conv)
  qed
qed

lemma timersOk_clearIdleTimeout: "timersOk s \<Longrightarrow> timersOk (clearIdleTimeout s)"
  by (auto simp: timersOk_def clearIdleTimeout_def clearTimeout_def list_all_iff
      distinct_map_filter split: option.splits)

lemma clearIdleTimeout_fields:
  "config (clearIdleTimeout s) = config s"
  "isListening (clearIdleTimeout s) = isListening s"
  "recognition (clearIdleTimeout s) = recognition s"
  by (simp_all add: clearIdleTimeout_def clearTimeout_def split: option.splits)

lemma wellFormed_say: "wellFormed c s \<Longrightarrow> wellFormed c (say l s)"
  by (simp add: wellFormed_def say_def timersOk_def)

lemma timersOk_cong:
  "timers s' = timers s \<Longrightarrow> nextTimer s' = nextTimer s \<Longrightarrow> idleTimeout s' = idleTimeout s \<Longrightarrow>
   timersOk s' = timersOk s"
  by (simp add: timersOk_def)

lemma stopRecognition_eq:
  "stopRecognition s =
     (clearIdleTimeout s)\<lparr>isListening := False, recognition := None,
        stops := (if recognition s = None then stops s else stops s + 1),
        console := Stopped # console s\<rparr>"
  by (simp add: stopRecognition_def say_def updateUIState_def clearIdleTimeout_def
      clearTimeout_def Let_def split: option.splits)

lemma timersOk_stopRecognition: "timersOk s \<Longrightarrow> timersOk (stopRecognition s)"
proof -
  assume a: "timersOk s"
  have "timersOk (stopRecognition s) = timersOk (clearIdleTimeout s)"
    by (rule timersOk_cong) (simp_all add: stopRecognition_eq)
  then show ?thesis using a by (simp add: timersOk_clearIdleTimeout)
qed

lemma wellFormed_stopRecognition: "wellFormed c s \<Longrightarrow> wellFormed c (stopRecognition s)"
  using timersOk_stopRecognition [of s]
  by (simp add: wellFormed_def) (simp add: stopRecognition_eq clearIdleTimeout_fields)

lemma isListening_stopRecognition: "isListening (stopRecognition s) = False"
  by (simp add: stopRecognition_eq)

lemma idleTimers_stopRecognition: "timersOk s \<Longrightarrow> idleTimers (stopRecognition s) = []"
  using idleTimers_clearIdleTimeout [of s]
  by (simp add: stopRecognition_eq idleTimers_def)

lemma resetIdleTimeout_eq:
  "resetIdleTimeout s =
     (clearIdleTimeout s)\<lparr>timers := (nextTimer s, IdleTimer) # timers (clearIdleTimeout s),
        nextTimer := Suc (nextTimer s), idleTimeout := Some (nextTimer s)\<rparr>"
  by (simp add: resetIdleTimeout_def setTimeout_def clearIdleTimeout_def clearTimeout_def
      Let_def split: option.splits)

lemma timersOk_resetIdleTimeout:
  assumes "timersOk s"
  shows "timersOk (resetIdleTimeout s)"
proof -
  let ?c = "clearIdleTimeout s"
  have n: "nextTimer ?c = nextTimer s"
    by (simp add: clearIdleTimeout_def clearTimeout_def split: option.splits)
  have t: "timersOk ?c" using assms by (rule timersOk_clearIdleTimeout)
  have "idleTimers ?c = []" using assms by (rule idleTimers_clearIdleTimeout)
  then have f: "\<And>p. p \<in> set (timers ?c) \<Longrightarrow> snd p = FeedbackTimer"
    by (simp add: idleTimers_def filter_empty_conv) (metis timer_kind.exhaust)
  have b: "\<And>p. p \<in> set (timers ?c) \<Longrightarrow> 0 < fst p \<and> fst p < nextTimer s"
    using t n by (simp add: timersOk_def list_all_iff)
  have d: "distinct (map fst (timers ?c))" and z: "0 < nextTimer s"
    using t n by (simp_all add: timersOk_def)
  have "nextTimer s \<notin> fst ` set (timers ?c)" using b by fastforce
  then show ?thesis using f b d z
    by (simp add: resetIdleTimeout_eq timersOk_def list_all_iff less_Suc_eq)
qed

lemma wellFormed_resetIdleTimeout: "wellFormed c s \<Longrightarrow> wellFormed c (resetIdleTimeout s)"
  using timersOk_resetIdleTimeout [of s]
  by (simp add: wellFormed_def) (simp add: resetIdleTimeout_eq clearIdleTimeout_fields)

lemma idleTimers_resetIdleTimeout:
  "timersOk s \<Longrightarrow>
   idleTimers (resetIdleTimeout s) = [(nextTimer s, IdleTimer)] \<and>
   idleTimeout (resetIdleTimeout s) = Some (nextTimer s)"
  using idleTimers_clearIdleTimeout [of s]
  by (simp add: resetIdleTimeout_eq idleTimers_def)

lemma wellFormed_smoothScroll: "wellFormed c s \<Longrightarrow> wellFormed c (smoothScroll v p s)"
  by (cases v) (simp_all add: wellFormed_def smoothScroll_def scrollTo_def timersOk_def)

lemma wellFormed_showCommandFeedback: "wellFormed c s \<Longrightarrow> wellFormed c (showCommandFeedback s)"
  by (auto simp: wellFormed_def showCommandFeedback_def setTimeout_def timersOk_def list_all_iff)

lemma wellFormed_dateNow: "wellFormed c s \<Longrightarrow> wellFormed c (snd (dateNow s))"
  by (simp add: wellFormed_def dateNow_def timersOk_def)

lemma wellFormed_last: "wellFormed c s \<Longrightarrow> wellFormed c (s\<lparr>lastCommand := x\<rparr>)"
  "wellFormed c s \<Longrightarrow> wellFormed c (s\<lparr>lastCommandTime := y\<rparr>)"
  by (simp_all add: wellFormed_def timersOk_def)

lemma wellFormed_action:
  "(n, d, a) \<in> set (commands v) \<Longrightarrow> wellFormed c s \<Longrightarrow> wellFormed c (settle (a s))"
  by (cases v)
     (auto simp: commands_def settle_def wellFormed_smoothScroll wellFormed_stopRecognition)

lemma wellFormed_executeCommand:
  assumes "wellFormed c s"
  shows "wellFormed c (settle (executeCommand v (commands v) n s))"
proof (cases "map_of (commands v) n")
  case None
  then show ?thesis using assms
    by (simp add: executeCommand_def executeCommandTry_def settle_def wellFormed_say)
next
  case (Some da)
  obtain d a where da: "da = (d, a)" by (cases da)
  have "(n, d, a) \<in> set (commands v)" using Some da by (simp add: map_of_SomeD)
  then have w: "wellFormed c (settle (a s))" using assms by (rule wellFormed_action)
  show ?thesis
  proof (cases "a s")
    case (Inl x)
    then show ?thesis using Some da w
      by (cases x) (simp add: executeCommand_def executeCommandTry_def settle_def wellFormed_say)
  next
    case (Inr s1)
    then have w1: "wellFormed c s1" using w by (simp add: settle_def)
    have "wellFormed c (snd (dateNow (s1\<lparr>lastCommand := n\<rparr>)))"
      using w1 by (simp add: wellFormed_dateNow wellFormed_last)
    then have "wellFormed c
        (say (Executed n) ((snd (dateNow (s1\<lparr>lastCommand := n\<rparr>)))
           \<lparr>lastCommandTime := fst (dateNow (s1\<lparr>lastCommand := n\<rparr>))\<rparr>))"
      by (simp add: wellFormed_say wellFormed_last)
    then show ?thesis using Some da Inr
      by (cases v)
         (simp_all add: executeCommand_def executeCommandTry_def settle_def split_def Let_def
            wellFormed_showCommandFeedback)
  qed
qed

lemma executeCommand_Inr: "\<exists>s1. executeCommand v cmds n s = Inr s1"
  by (simp add: executeCommand_def split: sum.splits prod.splits)

lemma processCommand_Inr: "\<exists>s1. processCommand v cmds w s = Inr s1"
  using executeCommand_Inr
  by (simp add: processCommand_def split_def Let_def split: option.splits)

lemma wellFormed_processCommand:
  assumes "wellFormed c s"
  shows "wellFormed c (settle (processCommand v (commands v) w s))"
proof -
  have n: "wellFormed c (noCommand v w s)"
    using assms by (cases v) (simp_all add: noCommand_def wellFormed_say)
  have d: "\<And>n. wellFormed c (snd (canExecuteCommand n s))"
    using assms by (simp add: canExecuteCommand_def split_def Let_def wellFormed_dateNow)
  have e: "\<And>n. wellFormed c
      (settle (executeCommand v (commands v) n (snd (canExecuteCommand n s))))"
    using d by (rule wellFormed_executeCommand)
  have b: "\<And>n. wellFormed c (settle (Inr (say (Debounced n) (snd (canExecuteCommand n s)))))"
    using d by (simp add: settle_def wellFormed_say)
  have m: "wellFormed c (settle (Inr (noCommand v w s)))"
    using n by (simp add: settle_def)
  show ?thesis
    using m e b
    by (simp add: processCommand_def split_def Let_def split: option.splits)
qed

lemma forEach_settle:
  assumes "\<And>w s. P s \<Longrightarrow> P (settle (f w s))" and "P s"
  shows "P (settle (forEach f ws s))"
  using assms(2)
proof (induction ws arbitrary: s)
  case Nil
  then show ?case by (simp add: settle_def)
next
  case (Cons w ws)
  have p: "P (settle (f w s))" using Cons.prems by (rule assms(1))
  show ?case
  proof (cases "f w s")
    case (Inl x)
    then show ?thesis using p by simp
  next
    case (Inr s1)
    then have "P s1" using p by (simp add: settle_def)
    then show ?thesis using Inr Cons.IH by simp
  qed
qed

lemma wellFormed_handleRecognitionResult:
  assumes "wellFormed c s"
  shows "wellFormed c (settle (handleRecognitionResult v noise (commands v) t s))"
proof -
  have "wellFormed c (resetIdleTimeout s)" using assms by (rule wellFormed_resetIdleTimeout)
  then have "wellFormed c (case v of V1 \<Rightarrow> say (Heard t) (resetIdleTimeout s) | V2 \<Rightarrow> resetIdleTimeout s)"
    by (cases v) (simp_all add: wellFormed_say)
  then show ?thesis
    unfolding handleRecognitionResult_def Let_def
    by (rule forEach_settle [rotated]) (rule wellFormed_processCommand)
qed

lemma wellFormed_handleRecognitionError:
  "wellFormed c s \<Longrightarrow> wellFormed c (handleRecognitionError v err s)"
  by (cases v)
     (simp_all add: handleRecognitionError_def Let_def wellFormed_say wellFormed_stopRecognition)

lemma wellFormed_handleRecognitionEnd:
  "wellFormed c s \<Longrightarrow> wellFormed c (handleRecognitionEnd b s)"
  by (auto simp: handleRecognitionEnd_def wellFormed_say wellFormed_stopRecognition
      split: option.splits)
     (simp_all add: wellFormed_def timersOk_def)

lemma wellFormed_showCommandsList:
  "wellFormed c s \<Longrightarrow> wellFormed c (showCommandsList v b s)"
  by (cases v) (simp_all add: showCommandsList_def Let_def wellFormed_say wellFormed_stopRecognition)

lemma wellFormed_startRecognition:
  assumes "wellFormed c s" and "isListening s = False"
  shows "wellFormed c (startRecognition v r b s)"
proof (cases r)
  case ConstructThrows
  then show ?thesis using assms
    by (simp add: startRecognition_def wellFormed_handleRecognitionError wellFormed_say)
next
  case StartThrows
  have "wellFormed c (s\<lparr>recognition := Some (sessions s), sessions := sessions s + 1\<rparr>)"
    using assms by (simp add: wellFormed_def timersOk_def)
  then show ?thesis using StartThrows
    by (simp add: startRecognition_def wellFormed_handleRecognitionError wellFormed_say)
next
  case StartOk
  have "wellFormed c (updateUIState True (s\<lparr>recognition := Some (sessions s),
          sessions := sessions s + 1, starts := starts s + 1\<rparr>))"
    using assms by (simp add: wellFormed_def timersOk_def updateUIState_def)
  then show ?thesis using StartOk
    by (simp add: startRecognition_def Let_def wellFormed_say wellFormed_resetIdleTimeout
        wellFormed_showCommandsList)
qed

lemma wellFormed_toggleRecognition:
  "wellFormed c s \<Longrightarrow> wellFormed c (toggleRecognition v r b s)"
  by (simp add: toggleRecognition_def wellFormed_startRecognition wellFormed_stopRecognition)

lemma wellFormed_destroy: "wellFormed c s \<Longrightarrow> wellFormed c (destroy s)"
  using wellFormed_stopRecognition [of c s] isListening_stopRecognition [of s]
  by (simp add: destroy_def wellFormed_def timersOk_def)

lemma wellFormed_clearTimeout: "wellFormed c s \<Longrightarrow> wellFormed c (clearTimeout t s)"
  using timersOk_clearTimeout [of s t]
  by (simp add: wellFormed_def) (simp add: clearTimeout_def)

lemma wellFormed_fireTimer: "wellFormed c s \<Longrightarrow> wellFormed c (fireTimer v t s)"
  by (cases v)
     (simp_all add: fireTimer_def Let_def wellFormed_clearTimeout wellFormed_say
        wellFormed_stopRecognition split: option.splits timer_kind.splits)

lemma wellFormed_step: "wellFormed c s \<Longrightarrow> wellFormed c (step v e s)"
proof (cases e)
  case (Metrics y h d)
  assume "wellFormed c s"
  then show ?thesis using Metrics by (simp add: wellFormed_def timersOk_def)
qed (simp_all add: wellFormed_toggleRecognition wellFormed_handleRecognitionResult
       wellFormed_handleRecognitionError wellFormed_handleRecognitionEnd
       wellFormed_fireTimer wellFormed_destroy)

lemma wellFormed_run: "wellFormed c s \<Longrightarrow> wellFormed c (run v es s)"
  by (induction es arbitrary: s) (simp_all add: wellFormed_step)

lemma wellFormed_newController: "wellFormed (mkConfig opts) (newController opts clk)"
  by (simp add: wellFormed_def newController_def timersOk_def)

subsection \<open>Configuration and idle timer\<close>

lemma reachable_wellFormed:
  "wellFormed (mkConfig opts) (run v es (newController opts clk))"
  by (rule wellFormed_run) (rule wellFormed_newController)

text \<open>
  C9. The configuration the constructor builds binds each of \<open>idleDuration\<close>,
  \<open>debounceDelay\<close>, \<open>scrollAmount\<close> and \<open>lang\<close> to the caller's value when the caller's
  object has the key (the spread at the end overwrites the \<open>||\<close> defaults, also for a
  falsy value such as 0) and to the default 10000, 500, 100, \<open>en-US\<close> when it has not;
  and no sequence of events changes the configuration of the controller.
\<close>

theorem config_merged_and_kept:
  "idleDuration (mkConfig opts) = (case optIdleDuration opts of None \<Rightarrow> 10000 | Some n \<Rightarrow> n) \<and>
   debounceDelay (mkConfig opts) = (case optDebounceDelay opts of None \<Rightarrow> 500 | Some n \<Rightarrow> n) \<and>
   scrollAmount (mkConfig opts) = (case optScrollAmount opts of None \<Rightarrow> 100 | Some x \<Rightarrow> x) \<and>
   lang (mkConfig opts) = (case optLang opts of None \<Rightarrow> ''en-US'' | Some l \<Rightarrow> l) \<and>
   config (newController opts clk) = mkConfig opts \<and>
   config (run v es (newController opts clk)) = mkConfig opts"
proof -
  have "config (run v es (newController opts clk)) = mkConfig opts"
    using reachable_wellFormed [of opts v es clk] by (simp add: wellFormed_def)
  then show ?thesis
    by (simp add: mkConfig_def spread_def orInt_def orReal_def orString_def newController_def
        split: option.splits)
qed

text \<open>
  C9, witness: the caller binds \<open>idleDuration\<close> to 15000 and \<open>debounceDelay\<close> to 0; after
  a session of five events the configuration is the merged one.
\<close>

theorem config_merged_and_kept_witness:
  "config (run V1 session (newController someOptions tenthClock)) =
     \<lparr> idleDuration = 15000, debounceDelay = 0, scrollAmount = 100, lang = ''en-US'' \<rparr>"
proof -
  have "mkConfig someOptions =
      \<lparr> idleDuration = 15000, debounceDelay = 0, scrollAmount = 100, lang = ''en-US'' \<rparr>"
    by (simp add: mkConfig_def spread_def someOptions_def orInt_def orReal_def orString_def)
  then show ?thesis
    using config_merged_and_kept [of someOptions tenthClock V1 session] by simp
qed

lemma timersOk_say: "timersOk (say l s) = timersOk s"
  by (simp add: timersOk_def say_def)

lemma idleTimers_say: "idleTimers (say l s) = idleTimers s"
  by (simp add: idleTimers_def say_def)

lemma idleTimers_owned:
  assumes "timersOk s"
  shows "set (idleTimers s) \<subseteq> (case idleTimeout s of None \<Rightarrow> {} | Some t \<Rightarrow> {(t, IdleTimer)})"
  using assms
  by (auto simp: timersOk_def idleTimers_def list_all_iff split: option.splits)

lemma idleTimers_at_most_one:
  assumes "timersOk s"
  shows "length (idleTimers s) \<le> 1"
proof -
  have d: "distinct (idleTimers s)"
    using assms by (simp add: timersOk_def idleTimers_def distinct_map)
  obtain a where "set (idleTimers s) \<subseteq> {a}"
    using idleTimers_owned [OF assms] by (cases "idleTimeout s") auto
  then have "card (set (idleTimers s)) \<le> 1"
    by (metis card_mono finite.emptyI finite.insertI card_1_singleton_iff order_refl
        is_singletonI is_singleton_altdef)
  then show ?thesis using d by (simp add: distinct_card)
qed

lemma nextTimer_stopRecognition: "nextTimer (stopRecognition s) = nextTimer s"
  by (simp add: stopRecognition_eq clearIdleTimeout_def clearTimeout_def split: option.splits)

lemma idleTimers_startRecognition:
  assumes "wellFormed c s" and "isListening s = False"
  shows "idleTimers (startRecognition v StartOk b s) = [(nextTimer s, IdleTimer)]"
proof -
  let ?s2 = "updateUIState True (s\<lparr>recognition := Some (sessions s),
          sessions := sessions s + 1, starts := starts s + 1\<rparr>)"
  let ?s3 = "showCommandsList v b ?s2"
  have "wellFormed c ?s2"
    using assms by (simp add: wellFormed_def timersOk_def updateUIState_def)
  then have "wellFormed c ?s3" by (rule wellFormed_showCommandsList)
  then have t: "timersOk ?s3" by (simp add: wellFormed_def)
  have n: "nextTimer ?s3 = nextTimer s"
    by (cases v)
       (simp_all add: showCommandsList_def Let_def say_def updateUIState_def
          nextTimer_stopRecognition)
  show ?thesis
    using idleTimers_resetIdleTimeout [OF t] n
    by (simp add: startRecognition_def Let_def idleTimers_say)
qed

lemma fireTimer_idle:
  assumes "timersOk s" and "(t, IdleTimer) \<in> set (timers s)"
  shows "fireTimer v t s =
          stopRecognition (case v of V1 \<Rightarrow> say StoppedInactive (clearTimeout t s)
                                   | V2 \<Rightarrow> clearTimeout t s)"
proof -
  have "distinct (map fst (timers s))" using assms(1) by (simp add: timersOk_def)
  then have "map_of (timers s) t = Some IdleTimer" using assms(2) by simp
  then show ?thesis by (cases v) (simp_all add: fireTimer_def)
qed

text \<open>
  C7. In every state the controller reaches from its construction, by any sequence of
  events, at most one idle timer is pending, and it is the one \<open>idleTimeout\<close> holds.
  Scheduling cancels first: after \<open>resetIdleTimeout\<close> (called by the start and by every
  result) the new timer is the only pending idle timer, and a start leaves exactly it.
  \<open>stopRecognition\<close> leaves no idle timer pending. When the pending idle timer fires, the
  controller runs \<open>stopRecognition\<close>: it no longer listens and no idle timer is pending.
\<close>

theorem idle_timer_single:
  assumes "s = run v es (newController opts clk)"
  shows "length (idleTimers s) \<le> 1 \<and>
     set (idleTimers s) \<subseteq> (case idleTimeout s of None \<Rightarrow> {} | Some t \<Rightarrow> {(t, IdleTimer)}) \<and>
     idleTimers (resetIdleTimeout s) = [(nextTimer s, IdleTimer)] \<and>
     idleTimeout (resetIdleTimeout s) = Some (nextTimer s) \<and>
     idleTimers (stopRecognition s) = [] \<and>
     (isListening s \<or> idleTimers (step v (Click StartOk b) s) = [(nextTimer s, IdleTimer)]) \<and>
     (\<forall>t. (t, IdleTimer) \<in> set (timers s) \<longrightarrow>
        step v (TimerFires t) s =
          stopRecognition (case v of V1 \<Rightarrow> say StoppedInactive (clearTimeout t s)
                                   | V2 \<Rightarrow> clearTimeout t s) \<and>
        isListening (step v (TimerFires t) s) = False \<and>
        idleTimers (step v (TimerFires t) s) = [])"
proof -
  have w: "wellFormed (mkConfig opts) s"
    unfolding assms by (rule reachable_wellFormed)
  then have t: "timersOk s" by (simp add: wellFormed_def)
  have 1: "length (idleTimers s) \<le> 1" using t by (rule idleTimers_at_most_one)
  have 2: "set (idleTimers s) \<subseteq> (case idleTimeout s of None \<Rightarrow> {} | Some t \<Rightarrow> {(t, IdleTimer)})"
    using t by (rule idleTimers_owned)
  have 3: "idleTimers (resetIdleTimeout s) = [(nextTimer s, IdleTimer)] \<and>
     idleTimeout (resetIdleTimeout s) = Some (nextTimer s)"
    using t by (rule idleTimers_resetIdleTimeout)
  have 4: "idleTimers (stopRecognition s) = []" using t by (rule idleTimers_stopRecognition)
  have 5: "isListening s \<or> idleTimers (step v (Click StartOk b) s) = [(nextTimer s, IdleTimer)]"
    using idleTimers_startRecognition [OF w] by (simp add: toggleRecognition_def)
  have 6: "step v (TimerFires u) s =
          stopRecognition (case v of V1 \<Rightarrow> say StoppedInactive (clearTimeout u s)
                                   | V2 \<Rightarrow> clearTimeout u s) \<and>
        isListening (step v (TimerFires u) s) = False \<and>
        idleTimers (step v (TimerFires u) s) = []"
    if u: "(u, IdleTimer) \<in> set (timers s)" for u
  proof -
    have f: "fireTimer v u s =
          stopRecognition (case v of V1 \<Rightarrow> say StoppedInactive (clearTimeout u s)
                                   | V2 \<Rightarrow> clearTimeout u s)"
      using t u by (rule fireTimer_idle)
    have "timersOk (case v of V1 \<Rightarrow> say StoppedInactive (clearTimeout u s)
                                   | V2 \<Rightarrow> clearTimeout u s)"
      using t by (cases v) (simp_all add: timersOk_say timersOk_clearTimeout)
    then have "idleTimers (fireTimer v u s) = []"
      unfolding f by (rule idleTimers_stopRecognition)
    then show ?thesis using f by (simp add: isListening_stopRecognition)
  qed
  show ?thesis using 1 2 3 4 5 6 by blast
qed

text \<open>
  C7, witness: the first click arms the idle timer 1 and the controller listens; a reset
  replaces it by the timer 2, a stop removes it, and when it fires the controller stops.
\<close>

theorem idle_timer_single_witness:
  "length (idleTimers (listening V1)) \<le> 1 \<and>
   idleTimers (listening V1) = [(1, IdleTimer)] \<and>
   idleTimers (resetIdleTimeout (listening V1)) = [(2, IdleTimer)] \<and>
   idleTimers (stopRecognition (listening V1)) = [] \<and>
   isListening (step V1 (TimerFires 1) (listening V1)) = False \<and>
   idleTimers (step V1 (TimerFires 1) (listening V1)) = [] \<and>
   isListening page = False \<and>
   idleTimers (step V1 (Click StartOk True) page) = [(1, IdleTimer)]"
proof -
  have q: "page = run V1 [Metrics 200 800 3000] (newController noOptions tenthClock)"
    by (simp add: page_def)
  have f: "isListening page = False" and g: "nextTimer page = 1"
    by (simp_all add: page_def newController_def)
  have "isListening page \<or>
      idleTimers (step V1 (Click StartOk True) page) = [(nextTimer page, IdleTimer)]"
    using idle_timer_single [OF q, of True] by blast
  then have p: "idleTimers (step V1 (Click StartOk True) page) = [(1, IdleTimer)]"
    using f g by simp
  have r: "listening V1 = run V1 [Metrics 200 800 3000, Click StartOk True] (newController noOptions tenthClock)"
    by (simp add: listening_def page_def)
  have l: "timers (listening V1) = [(1, IdleTimer)]" and n: "nextTimer (listening V1) = 2"
    by (simp_all add: listening_def page_def newController_def toggleRecognition_def
        startRecognition_def updateUIState_def showCommandsList_def say_def resetIdleTimeout_eq
        clearIdleTimeout_def)
  have i: "idleTimers (listening V1) = [(1, IdleTimer)]" using l by (simp add: idleTimers_def)
  have m: "(1, IdleTimer) \<in> set (timers (listening V1))" using l by simp
  note T = idle_timer_single [OF r, of True]
  have "isListening (step V1 (TimerFires 1) (listening V1)) = False \<and>
        idleTimers (step V1 (TimerFires 1) (listening V1)) = []"
    using T m by blast
  moreover have "idleTimers (resetIdleTimeout (listening V1)) = [(2, IdleTimer)]"
    using T n by simp
  moreover have "idleTimers (stopRecognition (listening V1)) = []"
    using T by blast
  moreover have "length (idleTimers (listening V1)) \<le> 1"
    using T by blast
  ultimately show ?thesis using i f p by simp
qed

subsection \<open>End of session and errors\<close>

text \<open>
  C8. In every state the controller reaches: when it listens, an end of the session makes
  it call \<open>start\<close> on the session again and it still listens, and if that call throws it
  runs \<open>stopRecognition\<close> and no longer listens; when it does not listen, an end of the
  session changes nothing.
\<close>

theorem end_restarts_or_stops:
  assumes "s = run v es (newController opts clk)"
  shows "(isListening s \<longrightarrow>
            step v (OnEnd False) s = s\<lparr>starts := starts s + 1\<rparr> \<and>
            isListening (step v (OnEnd False) s) \<and>
            step v (OnEnd True) s = stopRecognition (say FailedToRestart s) \<and>
            isListening (step v (OnEnd True) s) = False) \<and>
         (isListening s = False \<longrightarrow> step v (OnEnd b) s = s)"
proof -
  have "wellFormed (mkConfig opts) s"
    unfolding assms by (rule reachable_wellFormed)
  then have "isListening s = False \<or> recognition s \<noteq> None"
    by (simp add: wellFormed_def)
  then show ?thesis
    by (auto simp: handleRecognitionEnd_def isListening_stopRecognition)
qed

lemma listening_run:
  "listening v = run v [Metrics 200 800 3000, Click StartOk True] (newController noOptions tenthClock)"
  by (simp add: listening_def page_def)

lemma isListening_listening: "isListening (listening v) = True"
  by (cases v)
     (simp_all add: listening_def page_def newController_def toggleRecognition_def
        startRecognition_def updateUIState_def showCommandsList_def say_def resetIdleTimeout_eq
        clearIdleTimeout_def)

lemma starts_listening: "starts (listening v) = 1"
  by (cases v)
     (simp_all add: listening_def page_def newController_def toggleRecognition_def
        startRecognition_def updateUIState_def showCommandsList_def say_def resetIdleTimeout_eq
        clearIdleTimeout_def)

text \<open>
  C8, witness: the listening controller of \<open>V2\<close> restarts (a second call of \<open>start\<close>) or
  stops; the fresh controller ignores the end of a session.
\<close>

theorem end_restarts_or_stops_witness:
  "isListening (listening V2) \<and>
   starts (step V2 (OnEnd False) (listening V2)) = 2 \<and>
   isListening (step V2 (OnEnd False) (listening V2)) \<and>
   isListening (step V2 (OnEnd True) (listening V2)) = False \<and>
   isListening (newController noOptions tenthClock) = False \<and>
   step V2 (OnEnd True) (newController noOptions tenthClock) = newController noOptions tenthClock"
proof -
  have e: "newController noOptions tenthClock = run V2 [] (newController noOptions tenthClock)"
    by simp
  have f: "isListening (newController noOptions tenthClock) = False"
    by (simp add: newController_def)
  show ?thesis
    using end_restarts_or_stops [OF listening_run, of V2 True]
      end_restarts_or_stops [OF e, of True] f
    by (simp add: isListening_listening starts_listening isListening_stopRecognition)
qed

text \<open>
  C3 (as amended). In \<open>V1\<close> the controller listens after an error exactly if it listened
  before and the kind is none of \<open>not-allowed\<close>, \<open>permission-denied\<close>, \<open>audio-capture\<close>; the
  kinds \<open>no-speech\<close> and \<open>network\<close> only add lines to the console. In \<open>V2\<close> the controller
  listens after an error exactly if it listened before and the kind is not \<open>not-allowed\<close>;
  every other kind, \<open>permission-denied\<close> and \<open>audio-capture\<close> among them, only adds the
  error line to the console.
\<close>

theorem error_kinds:
  "isListening (handleRecognitionError V1 (Some kind) s) =
     (isListening s \<and> kind \<notin> {''not-allowed'', ''permission-denied'', ''audio-capture''}) \<and>
   handleRecognitionError V1 (Some ''no-speech'') s =
     s\<lparr>console := NoSpeech # RecognitionError ''no-speech'' # console s\<rparr> \<and>
   handleRecognitionError V1 (Some ''network'') s =
     s\<lparr>console := NetworkError # RecognitionError ''network'' # console s\<rparr> \<and>
   isListening (handleRecognitionError V2 (Some kind) s) =
     (isListening s \<and> kind \<noteq> ''not-allowed'') \<and>
   (kind = ''not-allowed'' \<or>
    handleRecognitionError V2 (Some kind) s =
      s\<lparr>console := RecognitionError (errorMessageOf (Some kind)) # console s\<rparr>)"
  by (simp add: handleRecognitionError_def errorMessageOf_def Let_def say_def
      isListening_stopRecognition)

text \<open>
  C3, witness: \<open>audio-capture\<close> stops \<open>V1\<close>, \<open>network\<close> does not; \<open>not-allowed\<close> stops
  \<open>V2\<close>, \<open>permission-denied\<close> does not.
\<close>

theorem error_kinds_witness:
  "isListening (handleRecognitionError V1 (Some ''audio-capture'') (listening V1)) = False \<and>
   isListening (handleRecognitionError V1 (Some ''network'') (listening V1)) = True \<and>
   isListening (handleRecognitionError V2 (Some ''not-allowed'') (listening V2)) = False \<and>
   isListening (handleRecognitionError V2 (Some ''permission-denied'') (listening V2)) = True"
  using error_kinds [of "''audio-capture''" "listening V1"]
    error_kinds [of "''network''" "listening V1"]
    error_kinds [of "''not-allowed''" "listening V2"]
    error_kinds [of "''permission-denied''" "listening V2"]
  by (simp add: isListening_listening)

text \<open>
  C3, counterexample to the statement as the specification has it: in \<open>V2\<close> the listening controller still
  listens after the error \<open>audio-capture\<close>.
\<close>

theorem error_V2_keeps_listening:
  "isListening (handleRecognitionError V2 (Some ''audio-capture'') (listening V2))"
  by (simp add: handleRecognitionError_def errorMessageOf_def Let_def say_def
      isListening_listening)

subsection \<open>Debounce and failing actions\<close>

text \<open>
  C2. \<open>canExecuteCommand\<close> answers yes exactly if the command differs from \<open>lastCommand\<close>
  or the reading of the clock minus \<open>lastCommandTime\<close> is greater than the debounce delay;
  for a word that matches a command, \<open>processCommand\<close> runs \<open>executeCommand\<close> exactly in
  that case and otherwise only logs the command as debounced. The same command exactly
  the delay after its last execution is suppressed; any command later than that passes.
\<close>

theorem debounce_gate:
  "fst (canExecuteCommand c s) =
     (c \<noteq> lastCommand s \<or> clock s (ticks s) - lastCommandTime s > debounceDelay (config s)) \<and>
   (findMatchingCommand cmds word = Some c \<and> c \<noteq> [] \<longrightarrow>
      processCommand v cmds word s =
        (if c \<noteq> lastCommand s \<or> clock s (ticks s) - lastCommandTime s > debounceDelay (config s)
         then executeCommand v cmds c (snd (dateNow s))
         else Inr (say (Debounced c) (snd (dateNow s))))) \<and>
   (c = lastCommand s \<and> clock s (ticks s) = lastCommandTime s + debounceDelay (config s) \<longrightarrow>
      fst (canExecuteCommand c s) = False) \<and>
   (clock s (ticks s) > lastCommandTime s + debounceDelay (config s) \<longrightarrow>
      fst (canExecuteCommand c s) = True)"
  by (auto simp: canExecuteCommand_def processCommand_def dateNow_def Let_def)

text \<open>
  C2, witness: after \<open>up\<close> was executed, a second \<open>up\<close> 500 ms later (the default delay)
  is debounced, 501 ms later it is executed, and \<open>down\<close> passes at once.
\<close>

theorem debounce_gate_witness:
  "findMatchingCommand (commands V1) ''up'' = Some ''up'' \<and>
   lastCommand (afterUp 500) = ''up'' \<and>
   clock (afterUp 500) (ticks (afterUp 500)) - lastCommandTime (afterUp 500) = 500 \<and>
   fst (canExecuteCommand ''up'' (afterUp 500)) = False \<and>
   processCommand V1 (commands V1) ''up'' (afterUp 500) =
     Inr (say (Debounced ''up'') (snd (dateNow (afterUp 500)))) \<and>
   clock (afterUp 501) (ticks (afterUp 501)) - lastCommandTime (afterUp 501) = 501 \<and>
   fst (canExecuteCommand ''up'' (afterUp 501)) = True \<and>
   processCommand V1 (commands V1) ''up'' (afterUp 501) =
     executeCommand V1 (commands V1) ''up'' (snd (dateNow (afterUp 501))) \<and>
   fst (canExecuteCommand ''down'' (afterUp 500)) = True"
proof -
  have m: "findMatchingCommand (commands V1) ''up'' = Some ''up''" by code_simp
  have l: "lastCommand (afterUp 500) = ''up''" "lastCommand (afterUp 501) = ''up''"
    by code_simp+
  have t: "lastCommandTime (afterUp 500) = 1500" "lastCommandTime (afterUp 501) = 1501"
    by code_simp+
  have k: "clock (afterUp 500) (ticks (afterUp 500)) = 2000"
    "clock (afterUp 501) (ticks (afterUp 501)) = 2002"
    by code_simp+
  have d: "debounceDelay (config (afterUp 500)) = 500" "debounceDelay (config (afterUp 501)) = 500"
    by code_simp+
  show ?thesis
    using debounce_gate [of "''up''" "afterUp 500" "commands V1" "''up''" V1]
      debounce_gate [of "''up''" "afterUp 501" "commands V1" "''up''" V1]
      debounce_gate [of "''down''" "afterUp 500" "commands V1" "''up''" V1]
    by (simp add: m l t k d)
qed

lemma forEach_processCommand:
  "forEach (processCommand v cmds) ws s =
     Inr (foldl (\<lambda>s w. settle (processCommand v cmds w s)) s ws)"
proof (induction ws arbitrary: s)
  case Nil
  show ?case by simp
next
  case (Cons w ws)
  obtain s1 where "processCommand v cmds w s = Inr s1"
    using processCommand_Inr [of v cmds w s] by blast
  then show ?case using Cons.IH [of s1] by (simp add: settle_def)
qed

text \<open>
  C6. For a command bound in the table: if its action throws, \<open>executeCommand\<close> returns
  normally with the state the action left and one more console line, so \<open>lastCommand\<close>
  and \<open>lastCommandTime\<close> are not written; if the action returns, they become the command
  and the next reading of the clock. Neither \<open>executeCommand\<close> nor \<open>processCommand\<close> ever
  throws, so the loop goes on with the remaining words and the handler processes every
  cleaned word of the transcript in order.
\<close>

theorem action_failure_contained:
  assumes "map_of cmds c = Some (d, a)"
  shows "(\<forall>e s1. a s = Inl (e, s1) \<longrightarrow>
            executeCommand v cmds c s = Inr (say (ErrorExecuting c) s1) \<and>
            lastCommand (settle (executeCommand v cmds c s)) = lastCommand s1 \<and>
            lastCommandTime (settle (executeCommand v cmds c s)) = lastCommandTime s1) \<and>
         (\<forall>s1. a s = Inr s1 \<longrightarrow>
            lastCommand (settle (executeCommand v cmds c s)) = c \<and>
            lastCommandTime (settle (executeCommand v cmds c s)) = clock s1 (ticks s1)) \<and>
         (\<exists>s1. executeCommand v cmds c s = Inr s1) \<and>
         (\<exists>s1. processCommand v cmds w s = Inr s1) \<and>
         forEach (processCommand v cmds) (w # ws) s =
           forEach (processCommand v cmds) ws (settle (processCommand v cmds w s)) \<and>
         handleRecognitionResult v noise cmds t s =
           Inr (foldl (\<lambda>s w. settle (processCommand v cmds w s))
                  (case v of V1 \<Rightarrow> say (Heard t) (resetIdleTimeout s) | V2 \<Rightarrow> resetIdleTimeout s)
                  (cleanTranscript v noise t))"
proof -
  have 1: "executeCommand v cmds c s = Inr (say (ErrorExecuting c) s1) \<and>
            lastCommand (settle (executeCommand v cmds c s)) = lastCommand s1 \<and>
            lastCommandTime (settle (executeCommand v cmds c s)) = lastCommandTime s1"
    if "a s = Inl (e, s1)" for e s1
    using assms that by (simp add: executeCommand_def executeCommandTry_def settle_def say_def)
  have 2: "lastCommand (settle (executeCommand v cmds c s)) = c \<and>
            lastCommandTime (settle (executeCommand v cmds c s)) = clock s1 (ticks s1)"
    if "a s = Inr s1" for s1
    using assms that
    by (cases v)
       (simp_all add: executeCommand_def executeCommandTry_def settle_def say_def dateNow_def
          showCommandFeedback_def setTimeout_def)
  have 3: "\<exists>s1. executeCommand v cmds c s = Inr s1" by (rule executeCommand_Inr)
  have 4: "\<exists>s1. processCommand v cmds w s = Inr s1" by (rule processCommand_Inr)
  have 5: "forEach (processCommand v cmds) (w # ws) s =
           forEach (processCommand v cmds) ws (settle (processCommand v cmds w s))"
    using 4 by (auto simp: settle_def)
  have 6: "handleRecognitionResult v noise cmds t s =
           Inr (foldl (\<lambda>s w. settle (processCommand v cmds w s))
                  (case v of V1 \<Rightarrow> say (Heard t) (resetIdleTimeout s) | V2 \<Rightarrow> resetIdleTimeout s)
                  (cleanTranscript v noise t))"
    by (simp add: handleRecognitionResult_def Let_def forEach_processCommand)
  show ?thesis using 1 2 3 4 5 6 by blast
qed

text \<open>
  C6, witness: with a table whose \<open>up\<close> throws, the transcript \<open>up down\<close> logs the failure
  of \<open>up\<close> and still executes \<open>down\<close>; the failed \<open>up\<close> leaves \<open>lastCommand\<close> empty.
\<close>

theorem action_failure_contained_witness:
  "lastCommand (listening V1) = [] \<and>
   executeCommand V1 failingCommands ''up'' (listening V1) =
     Inr (say (ErrorExecuting ''up'') (listening V1)) \<and>
   lastCommand (settle (executeCommand V1 failingCommands ''up'' (listening V1))) = [] \<and>
   lastCommandTime (settle (executeCommand V1 failingCommands ''up'' (listening V1))) = 0 \<and>
   lastCommand (settle (executeCommand V1 failingCommands ''down'' (listening V1))) = ''down'' \<and>
   lastCommandTime (settle (executeCommand V1 failingCommands ''down'' (listening V1))) = 1000 \<and>
   console (heard V1 failingCommands ''up down'' (listening V1)) =
     [Executed ''down'', ErrorExecuting ''up'', Heard ''up down'', Started,
      Alert ''Voice Control Active'']"
proof -
  have u: "map_of failingCommands ''up'' =
      Some (''Scroll up'', \<lambda>s. Inl (HostError ''scrollTo'', s))"
    by (simp add: failingCommands_def)
  have d: "map_of failingCommands ''down'' =
      Some (''Scroll down'', \<lambda>s. Inr (smoothScroll V1 (scrollY s + scrollAmount (config s)) s))"
    by (simp add: failingCommands_def commands_def)
  have l: "lastCommand (listening V1) = []" "lastCommandTime (listening V1) = 0"
    "clock (listening V1) (ticks (listening V1)) = 1000"
    by code_simp+
  have k: "clock (smoothScroll V1 p (listening V1)) (ticks (smoothScroll V1 p (listening V1))) = 1000"
    for p
    using l(3) by (simp add: smoothScroll_def scrollTo_def)
  have c: "console (heard V1 failingCommands ''up down'' (listening V1)) =
     [Executed ''down'', ErrorExecuting ''up'', Heard ''up down'', Started,
      Alert ''Voice Control Active'']"
    by code_simp
  show ?thesis
    using action_failure_contained [OF u, of "listening V1" V1]
      action_failure_contained [OF d, of "listening V1" V1]
    by (simp add: l k c settle_def say_def)
qed

subsection \<open>Splitting into words\<close>

lemma wordsOf_Nil: "wordsOf [] = []"
  by (simp add: wordsOf.simps)

lemma wordsOf_dropWhile: "wordsOf (dropWhile isWhiteSpace s) = wordsOf s"
  by (simp add: wordsOf.simps [of "dropWhile isWhiteSpace s"] wordsOf.simps [of s] dropWhile_idem)

lemma wordsOf_Cons:
  "wordsOf (c # cs) =
     (if isWhiteSpace c then wordsOf cs
      else (c # takeWhile (\<lambda>x. \<not> isWhiteSpace x) cs)
             # wordsOf (dropWhile (\<lambda>x. \<not> isWhiteSpace x) cs))"
proof (cases "isWhiteSpace c")
  case True
  have "wordsOf (c # cs) = wordsOf (dropWhile isWhiteSpace (c # cs))"
    by (simp only: wordsOf_dropWhile)
  also have "\<dots> = wordsOf cs" using True by (simp add: wordsOf_dropWhile)
  finally show ?thesis using True by simp
next
  case False
  then show ?thesis by (simp add: wordsOf.simps [of "c # cs"])
qed

lemma wordsOf_run_then:
  assumes "list_all (\<lambda>x. \<not> isWhiteSpace x) cur" and "cur \<noteq> []" and "isWhiteSpace c"
  shows "wordsOf (cur @ c # cs) = cur # wordsOf cs"
proof -
  obtain x xs where c: "cur = x # xs" using assms(2) by (cases cur) auto
  have n: "\<And>y. y \<in> set xs \<Longrightarrow> \<not> isWhiteSpace y" and x: "\<not> isWhiteSpace x"
    using assms(1) c by (simp_all add: list_all_iff)
  have t: "takeWhile (\<lambda>x. \<not> isWhiteSpace x) (xs @ c # cs) = xs"
    using n assms(3) by simp
  have d: "dropWhile (\<lambda>x. \<not> isWhiteSpace x) (xs @ c # cs) = c # cs"
    using n assms(3) by simp
  show ?thesis using c x t d assms(3) by (simp add: wordsOf_Cons)
qed

lemma wordsOf_run:
  assumes "list_all (\<lambda>x. \<not> isWhiteSpace x) cur"
  shows "wordsOf cur = (if cur = [] then [] else [cur])"
proof (cases cur)
  case Nil
  then show ?thesis by (simp add: wordsOf_Nil)
next
  case (Cons x xs)
  then have x: "\<not> isWhiteSpace x" and n: "\<forall>y\<in>set xs. \<not> isWhiteSpace y"
    using assms by (simp_all add: list_all_iff)
  have t: "takeWhile (\<lambda>x. \<not> isWhiteSpace x) xs = xs"
    and d: "dropWhile (\<lambda>x. \<not> isWhiteSpace x) xs = []"
    using n by simp_all
  show ?thesis using Cons x by (simp add: wordsOf_Cons wordsOf_Nil t d)
qed

lemma splitFrom_words:
  "list_all (\<lambda>x. \<not> isWhiteSpace x) cur \<Longrightarrow>
   filter (\<lambda>w. w \<noteq> []) (splitFrom cur s) = wordsOf (cur @ s)"
proof (induction cur s rule: splitFrom.induct)
  case (1 cur)
  then show ?case by (simp add: wordsOf_run)
next
  case (2 cur c cs)
  show ?case
  proof (cases "isWhiteSpace c")
    case True
    have ih: "filter (\<lambda>w. w \<noteq> []) (splitFrom [] (dropWhile isWhiteSpace cs)) = wordsOf cs"
      using "2.IH"(1) [OF True] by (simp add: wordsOf_dropWhile)
    show ?thesis
    proof (cases "cur = []")
      case True
      then show ?thesis using \<open>isWhiteSpace c\<close> ih by (simp add: wordsOf_Cons)
    next
      case False
      then show ?thesis
        using \<open>isWhiteSpace c\<close> ih wordsOf_run_then [OF "2.prems" False \<open>isWhiteSpace c\<close>]
        by simp
    qed
  next
    case False
    then have "list_all (\<lambda>x. \<not> isWhiteSpace x) (cur @ [c])" using "2.prems" by simp
    then show ?thesis using "2.IH"(2) [OF False] False by simp
  qed
qed

lemma wordsOf_snoc:
  "isWhiteSpace c \<Longrightarrow> wordsOf (a @ [c]) = wordsOf a"
proof (induction a rule: length_induct)
  case (1 a)
  show ?case
  proof (cases a)
    case Nil
    then show ?thesis using "1.prems" by (simp add: wordsOf_Cons wordsOf_Nil)
  next
    case (Cons x xs)
    show ?thesis
    proof (cases "isWhiteSpace x")
      case True
      then show ?thesis using Cons "1.IH" "1.prems" by (simp add: wordsOf_Cons)
    next
      case False
      let ?N = "\<lambda>x. \<not> isWhiteSpace x"
      show ?thesis
      proof (cases "list_all ?N xs")
        case True
        then have e: "takeWhile ?N (xs @ [c]) = xs" "dropWhile ?N (xs @ [c]) = [c]"
          "takeWhile ?N xs = xs" "dropWhile ?N xs = []"
          using "1.prems" by (simp_all add: list_all_iff)
        show ?thesis using Cons False "1.prems" by (simp add: wordsOf_Cons wordsOf_Nil e)
      next
        case F: False
        then obtain y where y: "y \<in> set xs" "\<not> ?N y" by (auto simp: list_all_iff)
        then have t: "takeWhile ?N (xs @ [c]) = takeWhile ?N xs"
          and d: "dropWhile ?N (xs @ [c]) = dropWhile ?N xs @ [c]"
          by (simp_all add: takeWhile_append1 dropWhile_append1)
        have "length (dropWhile ?N xs) < length a"
          using Cons length_dropWhile_le [of ?N xs] by simp
        then have "wordsOf (dropWhile ?N xs @ [c]) = wordsOf (dropWhile ?N xs)"
          using "1.IH" "1.prems" by blast
        then show ?thesis using Cons False t d by (simp add: wordsOf_Cons)
      qed
    qed
  qed
qed

lemma wordsOf_trailing:
  "list_all isWhiteSpace b \<Longrightarrow> wordsOf (a @ b) = wordsOf a"
proof (induction b arbitrary: a)
  case Nil
  show ?case by simp
next
  case (Cons c b)
  have "wordsOf (a @ c # b) = wordsOf ((a @ [c]) @ b)" by simp
  also have "\<dots> = wordsOf (a @ [c])" using Cons.IH [of "a @ [c]"] Cons.prems by simp
  also have "\<dots> = wordsOf a" using Cons.prems by (simp add: wordsOf_snoc)
  finally show ?case .
qed

lemma wordsOf_trim: "wordsOf (trim s) = wordsOf s"
proof -
  let ?d = "dropWhile isWhiteSpace s"
  have "rev ?d = takeWhile isWhiteSpace (rev ?d) @ dropWhile isWhiteSpace (rev ?d)" by simp
  then have "?d = rev (dropWhile isWhiteSpace (rev ?d)) @ rev (takeWhile isWhiteSpace (rev ?d))"
    by (metis rev_append rev_rev_ident)
  then have d: "?d = trim s @ rev (takeWhile isWhiteSpace (rev ?d))"
    by (simp add: trim_def)
  have "list_all isWhiteSpace (rev (takeWhile isWhiteSpace (rev ?d)))"
    by (simp add: list_all_iff) (metis set_takeWhileD)
  then have "wordsOf (trim s @ rev (takeWhile isWhiteSpace (rev ?d))) = wordsOf (trim s)"
    by (rule wordsOf_trailing)
  then have "wordsOf ?d = wordsOf (trim s)" using d by simp
  then show ?thesis by (simp add: wordsOf_dropWhile)
qed

lemma cleanTranscript_V1: "cleanTranscript V1 noise t = specClean noise t"
proof -
  have "filter (\<lambda>w. w \<noteq> []) (split_ws (trim (toLowerCase t))) = wordsOf (toLowerCase t)"
    using splitFrom_words [of "[]" "trim (toLowerCase t)"]
    by (simp add: split_ws_def wordsOf_trim)
  then have "filter (\<lambda>w. w \<notin> set noise) (filter (\<lambda>w. w \<noteq> []) (split_ws (trim (toLowerCase t))))
      = specClean noise t"
    by (simp add: specClean_def)
  then show ?thesis by (simp add: cleanTranscript_def conj_commute)
qed

lemma last_dropWhile_nonempty:
  "dropWhile P xs \<noteq> [] \<Longrightarrow> last (dropWhile P xs) = last xs"
  by (induction xs) (auto split: if_splits)

lemma splitFrom_no_empty:
  "cur \<noteq> [] \<or> (s \<noteq> [] \<and> \<not> isWhiteSpace (hd s)) \<Longrightarrow>
   s = [] \<or> \<not> isWhiteSpace (last s) \<Longrightarrow>
   [] \<notin> set (splitFrom cur s)"
proof (induction cur s rule: splitFrom.induct)
  case (1 cur)
  then show ?case by simp
next
  case (2 cur c cs)
  show ?case
  proof (cases "isWhiteSpace c")
    case True
    then have cur: "cur \<noteq> []" using "2.prems"(1) by simp
    have cs: "cs \<noteq> []" "\<not> isWhiteSpace (last cs)"
      using "2.prems"(2) True by (auto split: if_splits)
    then have "last cs \<in> set cs" by simp
    then have d: "dropWhile isWhiteSpace cs \<noteq> []"
      using cs(2) by (auto simp: dropWhile_eq_Nil_conv)
    then have h: "\<not> isWhiteSpace (hd (dropWhile isWhiteSpace cs))"
      by (simp add: hd_dropWhile)
    have l: "\<not> isWhiteSpace (last (dropWhile isWhiteSpace cs))"
      using d cs(2) by (simp add: last_dropWhile_nonempty)
    have "[] \<notin> set (splitFrom [] (dropWhile isWhiteSpace cs))"
      using "2.IH"(1) [OF True] d h l by simp
    then show ?thesis using True cur by simp
  next
    case False
    have "cs = [] \<or> \<not> isWhiteSpace (last cs)"
      using "2.prems"(2) by (auto split: if_splits)
    then have "[] \<notin> set (splitFrom (cur @ [c]) cs)"
      using "2.IH"(2) [OF False] by simp
    then show ?thesis using False by simp
  qed
qed

lemma trim_Nil_iff: "trim s = [] \<longleftrightarrow> list_all isWhiteSpace s"
proof -
  have "(\<forall>x\<in>set (dropWhile isWhiteSpace s). isWhiteSpace x) \<longleftrightarrow>
        dropWhile isWhiteSpace s = []"
    by (metis dropWhile_eq_Nil_conv dropWhile_idem)
  then show ?thesis
    by (simp add: trim_def dropWhile_eq_Nil_conv list_all_iff)
qed

lemma trim_ends:
  assumes "trim s \<noteq> []"
  shows "\<not> isWhiteSpace (hd (trim s)) \<and> \<not> isWhiteSpace (last (trim s))"
proof -
  let ?d = "dropWhile isWhiteSpace s"
  let ?r = "dropWhile isWhiteSpace (rev ?d)"
  have r: "?r \<noteq> []" using assms by (simp add: trim_def)
  then have d: "?d \<noteq> []" by (cases "?d = []") simp_all
  have "last (trim s) = hd ?r" using r by (simp add: trim_def last_rev)
  moreover have "\<not> isWhiteSpace (hd ?r)" using r by (simp add: hd_dropWhile)
  moreover have "hd (trim s) = last ?r" using r by (simp add: trim_def hd_rev)
  moreover have "last ?r = last (rev ?d)" using r by (rule last_dropWhile_nonempty)
  moreover have "last (rev ?d) = hd ?d" using d by (simp add: last_rev)
  moreover have "\<not> isWhiteSpace (hd ?d)" using d by (simp add: hd_dropWhile)
  ultimately show ?thesis by simp
qed

lemma split_ws_trim:
  "split_ws (trim s) = (if list_all isWhiteSpace s then [[]] else wordsOf s)"
proof (cases "trim s = []")
  case True
  then show ?thesis using trim_Nil_iff [of s] by (simp add: split_ws_def)
next
  case False
  have "[] \<notin> set (splitFrom [] (trim s))"
    using False trim_ends [OF False] by (intro splitFrom_no_empty) simp_all
  then have "filter (\<lambda>w. w \<noteq> []) (splitFrom [] (trim s)) = splitFrom [] (trim s)"
    by (simp add: filter_id_conv) metis
  then have "splitFrom [] (trim s) = wordsOf s"
    using splitFrom_words [of "[]" "trim s"] by (simp add: wordsOf_trim)
  then show ?thesis using False trim_Nil_iff [of s] by (simp add: split_ws_def)
qed

lemma isWhiteSpace_lowerChar: "isWhiteSpace (lowerChar c) = isWhiteSpace c"
  by (auto simp: isWhiteSpace_def lowerChar_def charCode_def Let_def)

lemma blank_toLowerCase: "list_all isWhiteSpace (toLowerCase t) = list_all isWhiteSpace t"
  by (simp add: toLowerCase_def list_all_iff isWhiteSpace_lowerChar)

lemma cleanTranscript_V2:
  "cleanTranscript V2 noise t =
     (if list_all isWhiteSpace t then filter (\<lambda>w. w \<notin> set noise) [[]] else specClean noise t)"
  by (simp add: cleanTranscript_def split_ws_trim blank_toLowerCase specClean_def)

lemma splitFrom_no_space:
  "list_all (\<lambda>x. \<not> isWhiteSpace x) cur \<Longrightarrow>
   list_all (list_all (\<lambda>x. \<not> isWhiteSpace x)) (splitFrom cur s)"
  by (induction cur s rule: splitFrom.induct) simp_all

lemma find_split:
  "List.find P xs = Some x \<longleftrightarrow>
     (\<exists>pre post. xs = pre @ x # post \<and> P x \<and> list_all (\<lambda>y. \<not> P y) pre)"
proof (induction xs)
  case Nil
  show ?case by simp
next
  case (Cons a xs)
  show ?case
  proof (cases "P a")
    case True
    have "(\<exists>pre post. a # xs = pre @ x # post \<and> P x \<and> list_all (\<lambda>y. \<not> P y) pre) \<longleftrightarrow> a = x"
    proof
      assume "\<exists>pre post. a # xs = pre @ x # post \<and> P x \<and> list_all (\<lambda>y. \<not> P y) pre"
      then obtain pre post where e: "a # xs = pre @ x # post" "list_all (\<lambda>y. \<not> P y) pre" by blast
      show "a = x"
      proof (cases pre)
        case Nil
        then show ?thesis using e by simp
      next
        case (Cons b bs)
        then show ?thesis using e True by simp
      qed
    next
      assume "a = x"
      then have "a # xs = [] @ x # xs \<and> P x \<and> list_all (\<lambda>y. \<not> P y) []" using True by simp
      then show "\<exists>pre post. a # xs = pre @ x # post \<and> P x \<and> list_all (\<lambda>y. \<not> P y) pre" by blast
    qed
    then show ?thesis using True by simp
  next
    case False
    have "(\<exists>pre post. a # xs = pre @ x # post \<and> P x \<and> list_all (\<lambda>y. \<not> P y) pre) \<longleftrightarrow>
          (\<exists>pre post. xs = pre @ x # post \<and> P x \<and> list_all (\<lambda>y. \<not> P y) pre)"
    proof
      assume "\<exists>pre post. a # xs = pre @ x # post \<and> P x \<and> list_all (\<lambda>y. \<not> P y) pre"
      then obtain pre post where e: "a # xs = pre @ x # post" "P x" "list_all (\<lambda>y. \<not> P y) pre"
        by blast
      show "\<exists>pre post. xs = pre @ x # post \<and> P x \<and> list_all (\<lambda>y. \<not> P y) pre"
      proof (cases pre)
        case Nil
        then show ?thesis using e False by simp
      next
        case (Cons b bs)
        then have "xs = bs @ x # post \<and> P x \<and> list_all (\<lambda>y. \<not> P y) bs" using e by simp
        then show ?thesis by blast
      qed
    next
      assume "\<exists>pre post. xs = pre @ x # post \<and> P x \<and> list_all (\<lambda>y. \<not> P y) pre"
      then obtain pre post where "xs = pre @ x # post" "P x" "list_all (\<lambda>y. \<not> P y) pre" by blast
      then have "a # xs = (a # pre) @ x # post \<and> P x \<and> list_all (\<lambda>y. \<not> P y) (a # pre)"
        using False by simp
      then show "\<exists>pre post. a # xs = pre @ x # post \<and> P x \<and> list_all (\<lambda>y. \<not> P y) pre" by blast
    qed
    then show ?thesis using False Cons.IH by simp
  qed
qed

subsection \<open>Matching\<close>

lemma commandNames:
  "map fst (commands V1) = [''up'', ''down'', ''top'', ''bottom'', ''fly'', ''jump'', ''stop'']"
  "map fst (commands V2) = [''up'', ''down'', ''top'', ''bottom'', ''fly'', ''jump'']"
  by (simp_all add: commands_def)

lemma processCommand_no_match:
  "findMatchingCommand cmds w = None \<Longrightarrow> processCommand v cmds w s = Inr (noCommand v w s)"
  by (simp add: processCommand_def)

lemma charCode_less: "charCode x < 256"
  by (simp add: charCode_def)

lemma charCode_char_of: "charCode (char_of (n::nat)) = n mod 256"
  by (simp add: charCode_def)

lemma charCode_eq_iff: "charCode a = charCode b \<longleftrightarrow> a = b"
  by (simp add: charCode_def)

lemma char_eq_by_code: "(a = b) = (charCode a = charCode b)"
  by (simp add: charCode_def)

lemma charCode_canonicalize:
  "charCode (canonicalize x) =
     (if 97 \<le> charCode x \<and> charCode x \<le> 122 then charCode x - 32 else charCode x)"
  using charCode_less [of x]
  by (simp add: canonicalize_def Let_def charCode_char_of)

lemma charCode_lowerChar:
  "charCode (lowerChar x) =
     (if (65 \<le> charCode x \<and> charCode x \<le> 90) \<or>
         (192 \<le> charCode x \<and> charCode x \<le> 222 \<and> charCode x \<noteq> 215)
      then charCode x + 32 else charCode x)"
  using charCode_less [of x]
  by (simp add: lowerChar_def Let_def charCode_char_of)

lemma canonicalize_lower_name:
  assumes "97 \<le> charCode p" and "charCode p \<le> 122"
  shows "(canonicalize x = canonicalize p) = (lowerChar x = p)"
proof -
  have "(canonicalize x = canonicalize p) = (charCode (canonicalize x) = charCode (canonicalize p))"
    by (simp add: charCode_eq_iff)
  also have "\<dots> = (charCode (lowerChar x) = charCode p)"
    using assms by (simp add: charCode_canonicalize charCode_lowerChar) arith
  also have "\<dots> = (lowerChar x = p)"
    by (simp add: charCode_eq_iff)
  finally show ?thesis .
qed

lemma lowerChar_idem: "lowerChar (lowerChar x) = lowerChar x"
proof -
  have "charCode (lowerChar (lowerChar x)) = charCode (lowerChar x)"
    by (simp add: charCode_lowerChar)
  then show ?thesis by (simp add: charCode_eq_iff)
qed

lemma isWordChar_lowerChar: "isWordChar (lowerChar x) = isWordChar x"
  by (auto simp: isWordChar_def Let_def charCode_lowerChar)

lemma canonical_eq_lower:
  "lowerName c \<Longrightarrow> (map canonicalize u = map canonicalize c) = (toLowerCase u = c)"
proof (induction u arbitrary: c)
  case Nil
  show ?case by (auto simp: toLowerCase_def)
next
  case (Cons x u)
  show ?case
  proof (cases c)
    case Nil
    then show ?thesis by (simp add: toLowerCase_def)
  next
    case (Cons p ps)
    then have p: "97 \<le> charCode p" "charCode p \<le> 122" and ps: "lowerName ps"
      using Cons.prems by (simp_all add: lowerName_def)
    have "(map canonicalize u = map canonicalize ps) = (toLowerCase u = ps)"
      using ps by (rule Cons.IH)
    then show ?thesis
      using Cons canonicalize_lower_name [OF p, of x] by (simp add: toLowerCase_def)
  qed
qed

lemma toLowerCase_idem: "toLowerCase (toLowerCase u) = toLowerCase u"
  by (simp add: toLowerCase_def lowerChar_idem)

lemma boundaryAt_toLowerCase:
  "i \<le> length w \<Longrightarrow> boundaryAt (toLowerCase w) i = boundaryAt w i"
  by (cases "i < length w"; cases "0 < i")
     (simp_all add: boundaryAt_def toLowerCase_def isWordChar_lowerChar)

lemma matchesAt_toLowerCase:
  assumes "lowerName c"
  shows "matchesAt c (toLowerCase w) i = matchesAt c w i"
proof (cases "i + length c \<le> length w")
  case True
  have "take (length c) (drop i (toLowerCase w)) = toLowerCase (take (length c) (drop i w))"
    by (simp add: toLowerCase_def take_map drop_map)
  then have "(map canonicalize (take (length c) (drop i (toLowerCase w))) = map canonicalize c) =
      (map canonicalize (take (length c) (drop i w)) = map canonicalize c)"
    using canonical_eq_lower [OF assms] by (simp add: toLowerCase_idem)
  moreover have "boundaryAt (toLowerCase w) i = boundaryAt w i"
    and "boundaryAt (toLowerCase w) (i + length c) = boundaryAt w (i + length c)"
    using True by (simp_all add: boundaryAt_toLowerCase)
  moreover have "length (toLowerCase w) = length w" by (simp add: toLowerCase_def)
  ultimately show ?thesis by (simp add: matchesAt_def)
next
  case False
  then show ?thesis by (simp add: matchesAt_def toLowerCase_def)
qed

lemma regexTest_toLowerCase:
  "lowerName c \<Longrightarrow> regexTest c (toLowerCase w) = regexTest c w"
  by (simp add: regexTest_def matchesAt_toLowerCase list_ex_iff) (simp add: toLowerCase_def)

lemma boundaryAt_word:
  assumes "list_all isWordChar w" and "i \<le> length w"
  shows "boundaryAt w i = (w \<noteq> [] \<and> (i = 0 \<or> i = length w))"
proof -
  have n: "\<And>j. j < length w \<Longrightarrow> isWordChar (w ! j)"
    using assms(1) by (simp add: list_all_length)
  show ?thesis
  proof (cases "i = 0")
    case True
    then show ?thesis using n [of 0] by (cases w) (simp_all add: boundaryAt_def)
  next
    case False
    then have p: "isWordChar (w ! (i - 1))" and ne: "w \<noteq> []"
      using n [of "i - 1"] assms(2) by auto
    show ?thesis
    proof (cases "i < length w")
      case True
      then show ?thesis using False p n [of i] by (simp add: boundaryAt_def)
    next
      case F: False
      then have "i = length w" using assms(2) by simp
      then show ?thesis using False p ne by (simp add: boundaryAt_def)
    qed
  qed
qed

lemma regexTest_word:
  assumes "list_all isWordChar w" and "lowerName c" and "c \<noteq> []"
  shows "regexTest c w = (toLowerCase w = c)"
proof
  assume "regexTest c w"
  then obtain i where "i \<in> set [0..<Suc (length w)]" and m: "matchesAt c w i"
    unfolding regexTest_def list_ex_iff by blast
  then have i: "i \<le> length w" "matchesAt c w i" by auto
  then have le: "i + length c \<le> length w"
    and b1: "boundaryAt w i" and b2: "boundaryAt w (i + length c)"
    and e: "map canonicalize (take (length c) (drop i w)) = map canonicalize c"
    by (simp_all add: matchesAt_def)
  have "i = 0 \<or> i = length w"
    using b1 boundaryAt_word [OF assms(1) i(1)] by simp
  then have i0: "i = 0" using le assms(3) by auto
  have "length c = 0 \<or> length c = length w"
    using b2 boundaryAt_word [OF assms(1), of "length c"] le i0 by simp
  then have "length c = length w" using assms(3) by simp
  then have "take (length c) (drop i w) = w" using i0 by simp
  then show "toLowerCase w = c" using e canonical_eq_lower [OF assms(2), of w] by simp
next
  assume t: "toLowerCase w = c"
  then have l: "length w = length c" by (auto simp: toLowerCase_def)
  then have ne: "w \<noteq> []" using assms(3) by auto
  have "boundaryAt w 0" and "boundaryAt w (length c)"
    using boundaryAt_word [OF assms(1), of 0] boundaryAt_word [OF assms(1), of "length c"] l ne
    by simp_all
  moreover have "map canonicalize (take (length c) (drop 0 w)) = map canonicalize c"
    using t l canonical_eq_lower [OF assms(2), of w] by simp
  ultimately have "matchesAt c w 0" using l by (simp add: matchesAt_def)
  moreover have "0 \<in> set [0..<Suc (length w)]" by simp
  ultimately show "regexTest c w" unfolding regexTest_def list_ex_iff by blast
qed

lemma lowerName_commands: "c \<in> set (map fst (commands v)) \<Longrightarrow> lowerName c \<and> c \<noteq> []"
proof -
  have "list_all (\<lambda>c. lowerName c \<and> c \<noteq> []) (map fst (commands V1))"
    and "list_all (\<lambda>c. lowerName c \<and> c \<noteq> []) (map fst (commands V2))"
    by code_simp+
  then have "list_all (\<lambda>c. lowerName c \<and> c \<noteq> []) (map fst (commands v))"
    by (cases v) simp_all
  then show "c \<in> set (map fst (commands v)) \<Longrightarrow> lowerName c \<and> c \<noteq> []"
    by (auto simp: list_all_iff)
qed

lemma find_equal: "List.find (\<lambda>n. x = n) xs = (if x \<in> set xs then Some x else None)"
  by (induction xs) auto

lemma findMatchingCommand_toLowerCase:
  "findMatchingCommand (commands v) (toLowerCase w) = findMatchingCommand (commands v) w"
  unfolding findMatchingCommand_def
  by (rule find_cong) (simp_all add: regexTest_toLowerCase lowerName_commands)

lemma findMatchingCommand_word:
  assumes "list_all isWordChar w"
  shows "findMatchingCommand (commands v) w =
     (if toLowerCase w \<in> set (map fst (commands v)) then Some (toLowerCase w) else None)"
proof -
  have "List.find (\<lambda>cmd. regexTest cmd w) (map fst (commands v)) =
        List.find (\<lambda>n. toLowerCase w = n) (map fst (commands v))"
    by (rule find_cong) (simp_all add: regexTest_word [OF assms] lowerName_commands)
  then show ?thesis by (simp add: findMatchingCommand_def find_equal)
qed

text \<open>
  C4. The command names are, in the order of declaration, \<open>up\<close>, \<open>down\<close>, \<open>top\<close>, \<open>bottom\<close>,
  \<open>fly\<close>, \<open>jump\<close> and, in \<open>V1\<close>, \<open>stop\<close>. \<open>findMatchingCommand\<close> returns the name \<open>c\<close>
  exactly if the pattern of \<open>c\<close> matches the word and the pattern of no earlier name does;
  it returns nothing exactly if no pattern matches, and then \<open>processCommand\<close> executes
  nothing (\<open>V2\<close> logs the word as unknown). The pattern is case-insensitive: a command
  name matches a word exactly if it matches the lower-cased word, so the selected command
  does not depend on the case of the word (\<open>UP\<close> selects \<open>up\<close>, \<open>Scroll-Down!\<close> selects
  \<open>down\<close>). The pattern is bounded by word boundaries: a word made of word characters
  only selects a command exactly if, lower-cased, it is the name itself, so \<open>download\<close>
  and \<open>DownLoad\<close> match no command (\<open>down\<close> does not end at a word boundary in them).
\<close>

theorem findMatchingCommand_first:
  "map fst (commands V1) = [''up'', ''down'', ''top'', ''bottom'', ''fly'', ''jump'', ''stop''] \<and>
   map fst (commands V2) = [''up'', ''down'', ''top'', ''bottom'', ''fly'', ''jump''] \<and>
   (findMatchingCommand cmds w = Some c \<longleftrightarrow>
      (\<exists>pre post. map fst cmds = pre @ c # post \<and> regexTest c w \<and>
         list_all (\<lambda>n. \<not> regexTest n w) pre)) \<and>
   (findMatchingCommand cmds w = None \<longleftrightarrow> list_all (\<lambda>n. \<not> regexTest n w) (map fst cmds)) \<and>
   (findMatchingCommand cmds w = None \<longrightarrow>
      processCommand v cmds w s = Inr (noCommand v w s) \<and>
      noCommand V1 w s = s \<and> noCommand V2 w s = s\<lparr>console := UnknownCommand w # console s\<rparr>) \<and>
   regexTest ''down'' ''download'' = False \<and>
   findMatchingCommand (commands v) ''download'' = None \<and>
   (c \<in> set (map fst (commands v)) \<longrightarrow> regexTest c (toLowerCase w) = regexTest c w) \<and>
   findMatchingCommand (commands v) (toLowerCase w) = findMatchingCommand (commands v) w \<and>
   (list_all isWordChar w \<longrightarrow>
      findMatchingCommand (commands v) w =
        (if toLowerCase w \<in> set (map fst (commands v)) then Some (toLowerCase w) else None)) \<and>
   findMatchingCommand (commands v) ''UP'' = Some ''up'' \<and>
   findMatchingCommand (commands v) ''Scroll-Down!'' = Some ''down'' \<and>
   findMatchingCommand (commands v) ''DownLoad'' = None"
proof -
  have 1: "findMatchingCommand cmds w = Some c \<longleftrightarrow>
      (\<exists>pre post. map fst cmds = pre @ c # post \<and> regexTest c w \<and>
         list_all (\<lambda>n. \<not> regexTest n w) pre)"
    unfolding findMatchingCommand_def by (rule find_split)
  have 2: "findMatchingCommand cmds w = None \<longleftrightarrow> list_all (\<lambda>n. \<not> regexTest n w) (map fst cmds)"
    by (simp add: findMatchingCommand_def find_None_iff list_all_iff)
  have 3: "noCommand V1 w s = s \<and> noCommand V2 w s = s\<lparr>console := UnknownCommand w # console s\<rparr>"
    by (simp add: noCommand_def say_def)
  have 4: "regexTest ''down'' ''download'' = False" by code_simp
  have "findMatchingCommand (commands V1) ''download'' = None"
    and "findMatchingCommand (commands V2) ''download'' = None"
    by code_simp+
  then have 5: "findMatchingCommand (commands v) ''download'' = None"
    by (cases v) simp_all
  have 6: "c \<in> set (map fst (commands v)) \<longrightarrow> regexTest c (toLowerCase w) = regexTest c w"
    using lowerName_commands [of c v] regexTest_toLowerCase [of c w] by blast
  have 7: "findMatchingCommand (commands v) (toLowerCase w) = findMatchingCommand (commands v) w"
    by (rule findMatchingCommand_toLowerCase)
  have 8: "list_all isWordChar w \<longrightarrow>
      findMatchingCommand (commands v) w =
        (if toLowerCase w \<in> set (map fst (commands v)) then Some (toLowerCase w) else None)"
    using findMatchingCommand_word [of w v] by blast
  have "findMatchingCommand (commands V1) ''UP'' = Some ''up''"
    and "findMatchingCommand (commands V2) ''UP'' = Some ''up''"
    and "findMatchingCommand (commands V1) ''Scroll-Down!'' = Some ''down''"
    and "findMatchingCommand (commands V2) ''Scroll-Down!'' = Some ''down''"
    and "findMatchingCommand (commands V1) ''DownLoad'' = None"
    and "findMatchingCommand (commands V2) ''DownLoad'' = None"
    by code_simp+
  then have 9: "findMatchingCommand (commands v) ''UP'' = Some ''up'' \<and>
    findMatchingCommand (commands v) ''Scroll-Down!'' = Some ''down'' \<and>
    findMatchingCommand (commands v) ''DownLoad'' = None"
    by (cases v) simp_all
  show ?thesis
    using 1 2 3 4 5 6 7 8 9 commandNames processCommand_no_match [of cmds w v s] by blast
qed

text \<open>
  C4, witness: \<open>top-down\<close> contains both \<open>top\<close> and \<open>down\<close> as words and selects \<open>down\<close>, the
  earlier name; \<open>stop\<close> matches nothing in \<open>V2\<close> and is discarded; \<open>Jump\<close> selects \<open>jump\<close>
  and \<open>Jumped\<close> selects nothing.
\<close>

theorem findMatchingCommand_first_witness:
  "findMatchingCommand (commands V1) ''top-down'' = Some ''down'' \<and>
   (\<exists>pre post. map fst (commands V1) = pre @ ''down'' # post \<and> regexTest ''down'' ''top-down'' \<and>
      list_all (\<lambda>n. \<not> regexTest n ''top-down'') pre) \<and>
   findMatchingCommand (commands V2) ''stop'' = None \<and>
   processCommand V2 (commands V2) ''stop'' page =
     Inr (page\<lparr>console := UnknownCommand ''stop'' # console page\<rparr>) \<and>
   list_all isWordChar ''Jump'' \<and>
   ''jump'' \<in> set (map fst (commands V2)) \<and>
   findMatchingCommand (commands V2) ''Jump'' = Some ''jump'' \<and>
   regexTest ''jump'' ''JUMP'' = regexTest ''jump'' ''jump'' \<and>
   list_all isWordChar ''Jumped'' \<and>
   findMatchingCommand (commands V2) ''Jumped'' = None"
proof -
  have a: "findMatchingCommand (commands V1) ''top-down'' = Some ''down''" by code_simp
  have b: "findMatchingCommand (commands V2) ''stop'' = None" by code_simp
  note A = findMatchingCommand_first [where cmds = "commands V1" and w = "''top-down''"
      and c = "''down''" and v = V1 and s = page]
  note B = findMatchingCommand_first [where cmds = "commands V2" and w = "''stop''"
      and c = "''down''" and v = V2 and s = page]
  note C = findMatchingCommand_first [where cmds = "commands V2" and w = "''Jump''"
      and c = "''jump''" and v = V2 and s = page]
  note D = findMatchingCommand_first [where cmds = "commands V2" and w = "''JUMP''"
      and c = "''jump''" and v = V2 and s = page]
  note E = findMatchingCommand_first [where cmds = "commands V2" and w = "''Jumped''"
      and c = "''jump''" and v = V2 and s = page]
  have 1: "\<exists>pre post. map fst (commands V1) = pre @ ''down'' # post \<and>
      regexTest ''down'' ''top-down'' \<and> list_all (\<lambda>n. \<not> regexTest n ''top-down'') pre"
    using A a by blast
  have "processCommand V2 (commands V2) ''stop'' page = Inr (noCommand V2 ''stop'' page)"
    and "noCommand V2 ''stop'' page = page\<lparr>console := UnknownCommand ''stop'' # console page\<rparr>"
    using B b by blast+
  then have 2: "processCommand V2 (commands V2) ''stop'' page =
     Inr (page\<lparr>console := UnknownCommand ''stop'' # console page\<rparr>)"
    by simp
  have w: "list_all isWordChar ''Jump''" "list_all isWordChar ''Jumped''" by code_simp+
  have l: "toLowerCase ''Jump'' = ''jump''" "toLowerCase ''Jumped'' = ''jumped''"
    "toLowerCase ''JUMP'' = ''jump''"
    by code_simp+
  have m: "''jump'' \<in> set (map fst (commands V2))" "''jumped'' \<notin> set (map fst (commands V2))"
    by (simp_all add: commandNames)
  have "findMatchingCommand (commands V2) ''Jump'' =
      (if toLowerCase ''Jump'' \<in> set (map fst (commands V2)) then Some (toLowerCase ''Jump'') else None)"
    using C w by blast
  then have 3: "findMatchingCommand (commands V2) ''Jump'' = Some ''jump''"
    using l m by simp
  have "findMatchingCommand (commands V2) ''Jumped'' =
      (if toLowerCase ''Jumped'' \<in> set (map fst (commands V2)) then Some (toLowerCase ''Jumped'') else None)"
    using E w by blast
  then have 4: "findMatchingCommand (commands V2) ''Jumped'' = None"
    using l m by simp
  have "regexTest ''jump'' (toLowerCase ''JUMP'') = regexTest ''jump'' ''JUMP''"
    using D m by blast
  then have 5: "regexTest ''jump'' ''JUMP'' = regexTest ''jump'' ''jump''"
    using l by simp
  show ?thesis using a b 1 2 3 4 5 w m by blast
qed

subsection \<open>Cleaning and noise\<close>

lemma cleaned_subset:
  "set (cleanTranscript v noise t) \<subseteq> insert [] (set (wordsOf (toLowerCase t)))"
  by (cases v) (auto simp: cleanTranscript_V1 cleanTranscript_V2 specClean_def)

lemma noise_tokens_match_nothing:
  "list_all (\<lambda>w. findMatchingCommand (commands v) w = None) ([] # noiseTokens v)"
proof -
  have "list_all (\<lambda>w. findMatchingCommand (commands V1) w = None) ([] # noiseTokens V1)"
    and "list_all (\<lambda>w. findMatchingCommand (commands V2) w = None) ([] # noiseTokens V2)"
    by code_simp+
  then show ?thesis by (cases v) simp_all
qed

lemma foldl_no_match:
  "list_all (\<lambda>w. findMatchingCommand cmds w = None) ws \<Longrightarrow>
   foldl (\<lambda>s w. settle (processCommand v cmds w s)) s ws = foldl (\<lambda>s w. noCommand v w s) s ws"
  by (induction ws arbitrary: s) (simp_all add: processCommand_no_match settle_def)

lemma foldl_noCommand:
  "\<exists>l. foldl (\<lambda>s w. noCommand v w s) s ws = s\<lparr>console := l\<rparr>"
proof (induction ws arbitrary: s)
  case Nil
  have "s = s\<lparr>console := console s\<rparr>" by simp
  then show ?case by (metis foldl_Nil)
next
  case (Cons w ws)
  obtain l where "foldl (\<lambda>s w. noCommand v w s) (noCommand v w s) ws = (noCommand v w s)\<lparr>console := l\<rparr>"
    using Cons.IH by blast
  then have "foldl (\<lambda>s w. noCommand v w s) s (w # ws) = s\<lparr>console := l\<rparr>"
    by (cases v) (simp_all add: noCommand_def say_def)
  then show ?case by blast
qed

lemma resetIdleTimeout_fields:
  "scrollCalls (resetIdleTimeout s) = scrollCalls s"
  "lastCommand (resetIdleTimeout s) = lastCommand s"
  "lastCommandTime (resetIdleTimeout s) = lastCommandTime s"
  "isListening (resetIdleTimeout s) = isListening s"
  "ticks (resetIdleTimeout s) = ticks s"
  by (simp_all add: resetIdleTimeout_eq clearIdleTimeout_def clearTimeout_def split: option.splits)

text \<open>
  C5 (as amended). In \<open>V1\<close>, \<open>cleanTranscript\<close> returns the words of the lower-cased
  transcript that are not noise words, in order: lower-casing, trimming, splitting on
  whitespace runs, then dropping the empty tokens and the noise words. In \<open>V2\<close> it returns
  the same, except that for a transcript of whitespace only (the empty one too) the one
  empty token of the split is kept unless the noise list holds the empty string. In both
  variants, for a transcript whose words are all words of noise entries, no cleaned token
  matches a command and the handler executes none: only the console changes after the
  reset of the idle timer.
\<close>

theorem cleanTranscript_spec:
  "cleanTranscript V1 noise t = specClean noise t \<and>
   cleanTranscript V2 noise t =
     (if list_all isWhiteSpace t then filter (\<lambda>w. w \<notin> set noise) [[]] else specClean noise t) \<and>
   (onlyNoise v t \<longrightarrow>
      list_all (\<lambda>w. findMatchingCommand (commands v) w = None)
        (cleanTranscript v (noiseWords v) t) \<and>
      handleRecognitionResult v (noiseWords v) (commands v) t s =
        Inr (foldl (\<lambda>s w. noCommand v w s)
               (case v of V1 \<Rightarrow> say (Heard t) (resetIdleTimeout s) | V2 \<Rightarrow> resetIdleTimeout s)
               (cleanTranscript v (noiseWords v) t)) \<and>
      scrollCalls (heard v (commands v) t s) = scrollCalls s \<and>
      lastCommand (heard v (commands v) t s) = lastCommand s \<and>
      lastCommandTime (heard v (commands v) t s) = lastCommandTime s \<and>
      isListening (heard v (commands v) t s) = isListening s \<and>
      ticks (heard v (commands v) t s) = ticks s)"
proof -
  let ?base = "case v of V1 \<Rightarrow> say (Heard t) (resetIdleTimeout s) | V2 \<Rightarrow> resetIdleTimeout s"
  let ?ws = "cleanTranscript v (noiseWords v) t"
  have n: "list_all (\<lambda>w. findMatchingCommand (commands v) w = None) ?ws \<and>
      handleRecognitionResult v (noiseWords v) (commands v) t s =
        Inr (foldl (\<lambda>s w. noCommand v w s) ?base ?ws) \<and>
      scrollCalls (heard v (commands v) t s) = scrollCalls s \<and>
      lastCommand (heard v (commands v) t s) = lastCommand s \<and>
      lastCommandTime (heard v (commands v) t s) = lastCommandTime s \<and>
      isListening (heard v (commands v) t s) = isListening s \<and>
      ticks (heard v (commands v) t s) = ticks s"
    if o: "onlyNoise v t"
  proof -
    have "set ?ws \<subseteq> set ([] # noiseTokens v)"
      using cleaned_subset [of v "noiseWords v" t] o
      by (auto simp: onlyNoise_def list_all_iff)
    then have a: "list_all (\<lambda>w. findMatchingCommand (commands v) w = None) ?ws"
      using noise_tokens_match_nothing [of v] unfolding list_all_iff by blast
    have h: "handleRecognitionResult v (noiseWords v) (commands v) t s =
        Inr (foldl (\<lambda>s w. noCommand v w s) ?base ?ws)"
      by (simp add: handleRecognitionResult_def Let_def forEach_processCommand
          foldl_no_match [OF a])
    obtain l where l: "foldl (\<lambda>s w. noCommand v w s) ?base ?ws = ?base\<lparr>console := l\<rparr>"
      using foldl_noCommand by blast
    have e: "heard v (commands v) t s = ?base\<lparr>console := l\<rparr>"
      using h l by (simp add: heard_def settle_def)
    have f: "scrollCalls (heard v (commands v) t s) = scrollCalls s \<and>
      lastCommand (heard v (commands v) t s) = lastCommand s \<and>
      lastCommandTime (heard v (commands v) t s) = lastCommandTime s \<and>
      isListening (heard v (commands v) t s) = isListening s \<and>
      ticks (heard v (commands v) t s) = ticks s"
      unfolding e by (cases v) (simp_all add: say_def resetIdleTimeout_fields)
    show ?thesis using a h f by blast
  qed
  show ?thesis using n cleanTranscript_V1 cleanTranscript_V2 by blast
qed

text \<open>
  C5, witness: a transcript with a command is cleaned to its four words; a blank one gives
  one empty token in \<open>V2\<close>; a transcript of noise only leaves \<open>you\<close> and \<open>know\<close> and scrolls
  nothing.
\<close>

theorem cleanTranscript_spec_witness:
  "cleanTranscript V1 (noiseWords V1) '' Please  scroll the page DOWN '' =
     [''please'', ''scroll'', ''page'', ''down''] \<and>
   specClean (noiseWords V1) '' Please  scroll the page DOWN '' =
     [''please'', ''scroll'', ''page'', ''down''] \<and>
   cleanTranscript V2 (noiseWords V2) ''  '' = [[]] \<and>
   onlyNoise V1 ''Um uh  you know LIKE'' \<and>
   cleanTranscript V1 (noiseWords V1) ''Um uh  you know LIKE'' = [''you'', ''know''] \<and>
   scrollCalls (heard V1 (commands V1) ''Um uh  you know LIKE'' (listening V1)) = [] \<and>
   lastCommand (heard V1 (commands V1) ''Um uh  you know LIKE'' (listening V1)) = []"
proof -
  have a: "specClean (noiseWords V1) '' Please  scroll the page DOWN '' =
     [''please'', ''scroll'', ''page'', ''down'']" by code_simp
  have b: "list_all isWhiteSpace ''  ''" "[] \<notin> set (noiseWords V2)" by code_simp+
  have c: "onlyNoise V1 ''Um uh  you know LIKE''" by code_simp
  have d: "specClean (noiseWords V1) ''Um uh  you know LIKE'' = [''you'', ''know'']" by code_simp
  have e: "scrollCalls (listening V1) = []" "lastCommand (listening V1) = []" by code_simp+
  note A = cleanTranscript_spec [of "noiseWords V1" "'' Please  scroll the page DOWN ''" V1 "listening V1"]
  note B = cleanTranscript_spec [of "noiseWords V2" "''  ''" V1 "listening V1"]
  note C = cleanTranscript_spec [of "noiseWords V1" "''Um uh  you know LIKE''" V1 "listening V1"]
  have "cleanTranscript V1 (noiseWords V1) '' Please  scroll the page DOWN '' =
      specClean (noiseWords V1) '' Please  scroll the page DOWN ''"
    using A by blast
  then have 1: "cleanTranscript V1 (noiseWords V1) '' Please  scroll the page DOWN '' =
     [''please'', ''scroll'', ''page'', ''down'']"
    using a by simp
  have "cleanTranscript V2 (noiseWords V2) ''  '' =
     (if list_all isWhiteSpace ''  '' then filter (\<lambda>w. w \<notin> set (noiseWords V2)) [[]]
      else specClean (noiseWords V2) ''  '')"
    using B by blast
  then have 2: "cleanTranscript V2 (noiseWords V2) ''  '' = [[]]"
    using b by simp
  have "cleanTranscript V1 (noiseWords V1) ''Um uh  you know LIKE'' =
      specClean (noiseWords V1) ''Um uh  you know LIKE''"
    using C by blast
  then have 3: "cleanTranscript V1 (noiseWords V1) ''Um uh  you know LIKE'' = [''you'', ''know'']"
    using d by simp
  have "scrollCalls (heard V1 (commands V1) ''Um uh  you know LIKE'' (listening V1)) =
          scrollCalls (listening V1) \<and>
        lastCommand (heard V1 (commands V1) ''Um uh  you know LIKE'' (listening V1)) =
          lastCommand (listening V1)"
    using C c by blast
  then have 4: "scrollCalls (heard V1 (commands V1) ''Um uh  you know LIKE'' (listening V1)) = [] \<and>
        lastCommand (heard V1 (commands V1) ''Um uh  you know LIKE'' (listening V1)) = []"
    using e by simp
  show ?thesis using 1 2 3 4 a c by blast
qed

text \<open>
  C5, counterexample to the statement as the specification has it: in \<open>V2\<close> the cleaned sequence of the empty
  transcript contains the empty token.
\<close>

theorem cleanTranscript_V2_keeps_empty:
  "[] \<in> set (cleanTranscript V2 (noiseWords V2) [])"
  by code_simp

lemma space_in_you_know: "list_all (\<lambda>x. \<not> isWhiteSpace x) ''you know'' = False"
  by code_simp

text \<open>
  C10. No token of the split contains whitespace, so the entry \<open>you know\<close> of the noise
  list is never one of them: cleaning with the list and cleaning with the list without
  that entry give the same result, and the tokens \<open>you\<close> and \<open>know\<close> survive the cleaning
  whenever the split produces them.
\<close>

theorem you_know_never_filters:
  "list_all (list_all (\<lambda>x. \<not> isWhiteSpace x)) (split_ws (trim (toLowerCase t))) \<and>
   ''you know'' \<notin> set (split_ws (trim (toLowerCase t))) \<and>
   cleanTranscript v (noiseWords v) t = cleanTranscript v (removeAll ''you know'' (noiseWords v)) t \<and>
   (''you'' \<in> set (split_ws (trim (toLowerCase t))) \<longrightarrow>
      ''you'' \<in> set (cleanTranscript v (noiseWords v) t)) \<and>
   (''know'' \<in> set (split_ws (trim (toLowerCase t))) \<longrightarrow>
      ''know'' \<in> set (cleanTranscript v (noiseWords v) t))"
proof -
  let ?ps = "split_ws (trim (toLowerCase t))"
  have 1: "list_all (list_all (\<lambda>x. \<not> isWhiteSpace x)) ?ps"
    unfolding split_ws_def by (rule splitFrom_no_space) simp
  have 2: "''you know'' \<notin> set ?ps"
    using 1 space_in_you_know unfolding list_all_iff [of _ ?ps] by blast
  have "\<And>w. w \<in> set ?ps \<Longrightarrow>
      (w \<notin> set (noiseWords v)) = (w \<notin> set (removeAll ''you know'' (noiseWords v)))"
    using 2 by auto
  then have 3: "cleanTranscript v (noiseWords v) t =
      cleanTranscript v (removeAll ''you know'' (noiseWords v)) t"
    by (cases v) (auto simp: cleanTranscript_def intro!: filter_cong)
  have 4: "''you'' \<notin> set (noiseWords v)" "''know'' \<notin> set (noiseWords v)"
    by (cases v; simp add: noiseWords_def)+
  have 5: "''you'' \<in> set ?ps \<Longrightarrow> ''you'' \<in> set (cleanTranscript v (noiseWords v) t)"
    using 4 by (cases v) (simp_all add: cleanTranscript_def)
  have 6: "''know'' \<in> set ?ps \<Longrightarrow> ''know'' \<in> set (cleanTranscript v (noiseWords v) t)"
    using 4 by (cases v) (simp_all add: cleanTranscript_def)
  show ?thesis using 1 2 3 5 6 by blast
qed

text \<open>
  C10, witness: in \<open>Well you know UP\<close> the tokens \<open>you\<close> and \<open>know\<close> are produced and kept.
\<close>

theorem you_know_never_filters_witness:
  "''you'' \<in> set (split_ws (trim (toLowerCase ''Well you know UP''))) \<and>
   ''know'' \<in> set (split_ws (trim (toLowerCase ''Well you know UP''))) \<and>
   ''you'' \<in> set (cleanTranscript V1 (noiseWords V1) ''Well you know UP'') \<and>
   ''know'' \<in> set (cleanTranscript V1 (noiseWords V1) ''Well you know UP'') \<and>
   ''you know'' \<in> set (noiseWords V1) \<and>
   ''you know'' \<notin> set (split_ws (trim (toLowerCase ''Well you know UP'')))"
proof -
  have a: "split_ws (trim (toLowerCase ''Well you know UP'')) = [''well'', ''you'', ''know'', ''up'']"
    by code_simp
  have b: "''you know'' \<in> set (noiseWords V1)" by (simp add: noiseWords_def)
  note T = you_know_never_filters [of "''Well you know UP''" V1]
  have y: "''you'' \<in> set (split_ws (trim (toLowerCase ''Well you know UP'')))"
    and k: "''know'' \<in> set (split_ws (trim (toLowerCase ''Well you know UP'')))"
    by (simp_all add: a)
  have "''you'' \<in> set (cleanTranscript V1 (noiseWords V1) ''Well you know UP'')"
    using T y by blast
  moreover have "''know'' \<in> set (cleanTranscript V1 (noiseWords V1) ''Well you know UP'')"
    using T k by blast
  moreover have "''you know'' \<notin> set (split_ws (trim (toLowerCase ''Well you know UP'')))"
    using T by blast
  ultimately show ?thesis using y k b by blast
qed

end
